theory Spec2Isabelle
  imports Main "HOL-Library.Word"
begin

section \<open>Constants of bench\_event.c\<close>

text \<open>Number of API function calls per test case.\<close>

definition REPEAT_COUNT :: int where
  "REPEAT_COUNT = 1000"

text \<open>Maximum burst size for the multi operations.\<close>

definition MAX_BURST :: int where
  "MAX_BURST = 64"

text \<open>Maximum number of test events: the length of every table of \<open>gbl_args_t\<close>.\<close>

definition MAX_EVENTS :: int where
  "MAX_EVENTS = REPEAT_COUNT * MAX_BURST"

text \<open>Maximum number of retries.\<close>

definition MAX_RETRY :: int where
  "MAX_RETRY = 1024"

section \<open>Event handles and the event table\<close>

text \<open>
  \<open>em_event_t\<close> is an opaque handle of the Event Machine API with one distinguished
  invalid value, \<open>EM_EVENT_UNDEF\<close>. The program only ever compares a handle with
  \<open>EM_EVENT_UNDEF\<close> and passes it on, so a handle is either that value or some event.
\<close>

datatype em_event_t = EM_EVENT_UNDEF | Event nat

subsection \<open>free\_event\_tbl\<close>

text \<open>
  \<^verbatim>\<open>
  for (int i = 0; i < num; i++) {
      if (event_tbl[i] != EM_EVENT_UNDEF) {
          em_free(event_tbl[i]);
          event_tbl[i] = EM_EVENT_UNDEF;
      }
  }
  \<close>
  The state is the table and the list of handles given to \<open>em_free\<close> so far, in call
  order. Reading \<open>event_tbl[i]\<close> beyond the table is undefined in C: the model stops
  with \<open>None\<close> there.
\<close>

function free_event_tbl_loop ::
  "em_event_t list \<Rightarrow> int \<Rightarrow> nat \<Rightarrow> em_event_t list \<Rightarrow> (em_event_t list \<times> em_event_t list) option"
where
  "free_event_tbl_loop event_tbl num i freed =
     (if int i < num then
        (if i < length event_tbl then
           (if event_tbl ! i \<noteq> EM_EVENT_UNDEF
            then free_event_tbl_loop (event_tbl[i := EM_EVENT_UNDEF]) num (Suc i)
                   (freed @ [event_tbl ! i])
            else free_event_tbl_loop event_tbl num (Suc i) freed)
         else None)
      else Some (event_tbl, freed))"
  by pat_completeness auto
termination
  by (relation "measure (\<lambda>(event_tbl, num, i, freed). nat (num - int i))") auto

declare free_event_tbl_loop.simps [simp del]

definition free_event_tbl ::
  "em_event_t list \<Rightarrow> int \<Rightarrow> em_event_t list \<Rightarrow> (em_event_t list \<times> em_event_t list) option"
where
  "free_event_tbl event_tbl num freed = free_event_tbl_loop event_tbl num 0 freed"

subsection \<open>allocate\_test\_events\<close>

text \<open>
  \<open>em_alloc_multi\<close> belongs to the Event Machine library. It is a parameter of the
  model: given the state of the pool and the number of events asked for, it answers with
  its return value and the next state of the pool. The loop keeps, as a log, the offset
  into \<open>event[]\<close> and the number asked for at each call. \<open>ODPH_ABORT\<close> ends the
  process: the result \<open>Alloc_abort\<close>.
\<close>

datatype 'p alloc_result =
    Alloc_done (alloc_calls: "(int \<times> int) list") (alloc_pool: 'p)
  | Alloc_abort (alloc_calls: "(int \<times> int) list") (alloc_pool: 'p)

text \<open>An allocator that answers every request with the same return value.\<close>

definition alloc_always :: "int \<Rightarrow> 'p \<Rightarrow> int \<Rightarrow> int \<times> 'p" where
  "alloc_always r pool n = (r, pool)"

function allocate_test_events_loop ::
  "('p \<Rightarrow> int \<Rightarrow> int \<times> 'p) \<Rightarrow> int \<Rightarrow> int \<Rightarrow> int \<Rightarrow> (int \<times> int) list \<Rightarrow> 'p \<Rightarrow> 'p alloc_result"
where
  "allocate_test_events_loop em_alloc_multi num num_events num_retries calls pool =
     (if num_events < num then
        (let (ret, pool') = em_alloc_multi pool (num - num_events);
             calls' = calls @ [(num_events, num - num_events)]
         in if ret < 1 then
              (if ret < 0 \<or> num_retries + 1 > MAX_RETRY
               then Alloc_abort calls' pool'
               else allocate_test_events_loop em_alloc_multi num num_events (num_retries + 1)
                      calls' pool')
            else allocate_test_events_loop em_alloc_multi num (num_events + ret) 0 calls' pool')
      else Alloc_done calls pool)"
  by pat_completeness auto
termination
  by (relation "measures [\<lambda>(f, num, num_events, num_retries, calls, pool). nat (num - num_events),
                          \<lambda>(f, num, num_events, num_retries, calls, pool). nat (MAX_RETRY + 1 - num_retries)]")
     (auto simp: MAX_RETRY_def)

declare allocate_test_events_loop.simps [simp del]

definition allocate_test_events ::
  "('p \<Rightarrow> int \<Rightarrow> int \<times> 'p) \<Rightarrow> int \<Rightarrow> 'p \<Rightarrow> 'p alloc_result"
where
  "allocate_test_events em_alloc_multi num pool =
     allocate_test_events_loop em_alloc_multi num 0 0 [] pool"

text \<open>
  To speak of what the library returned, \<open>logging\<close> wraps an allocator: it hands every
  request on to \<open>em_alloc_multi\<close> unchanged and appends the return value to a list kept
  beside the state of the pool. \<open>alloc_rets\<close> is that list at the end of
  \<open>allocate_test_events\<close>: the return values of the calls made, in order.
\<close>

definition logging ::
  "('p \<Rightarrow> int \<Rightarrow> int \<times> 'p) \<Rightarrow> 'p \<times> int list \<Rightarrow> int \<Rightarrow> int \<times> ('p \<times> int list)"
where
  "logging em_alloc_multi st n =
     (let (ret, pool') = em_alloc_multi (fst st) n in (ret, (pool', snd st @ [ret])))"

definition alloc_rets :: "('p \<Rightarrow> int \<Rightarrow> int \<times> 'p) \<Rightarrow> int \<Rightarrow> 'p \<Rightarrow> int list" where
  "alloc_rets em_alloc_multi num pool =
     snd (alloc_pool (allocate_test_events (logging em_alloc_multi) num (pool, [])))"

text \<open>
  The number of calls in a row, up to the last one, that returned no event
  (\<open>ret < 1\<close>).
\<close>

definition empty_run :: "int list \<Rightarrow> nat" where
  "empty_run rets = length (takeWhile (\<lambda>ret. ret < 1) (rev rets))"

text \<open>
  An allocator that answers from a list of return values, one per call, and with 0 once
  the list is used up.
\<close>

fun alloc_script :: "int list \<Rightarrow> int \<Rightarrow> int \<times> int list" where
  "alloc_script [] n = (0, [])"
| "alloc_script (ret # rets) n = (ret, rets)"

text \<open>
  \<open>alloc_inv\<close> is what holds at the head of the \<open>while\<close> loop, of the variables
  \<open>num_events\<close> and \<open>num_retries\<close>, the calls made so far and their return values;
  \<open>alloc_final\<close> is what holds when the function is left.
\<close>

definition alloc_inv :: "int \<Rightarrow> int \<Rightarrow> int \<Rightarrow> (int \<times> int) list \<Rightarrow> int list \<Rightarrow> bool" where
  "alloc_inv num num_events num_retries calls rets \<longleftrightarrow>
     length calls = length rets \<and> num_events = sum_list rets \<and>
     num_retries = int (empty_run rets) \<and> empty_run rets \<le> 1024 \<and>
     (\<forall>k<length rets. calls ! k = (sum_list (take k rets), num - sum_list (take k rets)) \<and>
                       sum_list (take k rets) < num \<and> 0 \<le> rets ! k \<and>
                       empty_run (take (Suc k) rets) \<le> 1024)"

definition alloc_final :: "int \<Rightarrow> bool \<Rightarrow> (int \<times> int) list \<Rightarrow> int list \<Rightarrow> bool" where
  "alloc_final num done calls rets \<longleftrightarrow>
     length calls = length rets \<and>
     (\<forall>k<length rets. calls ! k = (sum_list (take k rets), num - sum_list (take k rets)) \<and>
                       sum_list (take k rets) < num) \<and>
     (\<forall>k. Suc k < length rets \<longrightarrow> 0 \<le> rets ! k \<and> empty_run (take (Suc k) rets) \<le> 1024) \<and>
     (done \<longleftrightarrow> num \<le> sum_list rets) \<and>
     (\<not> done \<longleftrightarrow> rets \<noteq> [] \<and> (last rets < 0 \<or> empty_run rets = 1025))"


section \<open>The benchmark driver\<close>

subsection \<open>Benchmark data and global arguments\<close>

text \<open>
  The callbacks of a test case act on everything outside the driver: the pools, the
  queue, the tables of \<open>gbl_args_t\<close>, the clocks and the flag \<open>exit_thread\<close> that the
  signal handler sets. That outside is a value of the type variable \<open>'w\<close>, handed from
  call to call. \<open>bench_run\<close> answers with the \<open>int\<close> it returns and the next outside;
  a \<open>NULL\<close> function pointer is \<open>None\<close>.
\<close>

record 'w bench_info_t =
  bench_name :: string
  bench_run :: "'w \<Rightarrow> int \<times> 'w"
  bench_init :: "('w \<Rightarrow> 'w) option"
  bench_term :: "('w \<Rightarrow> 'w) option"
  bench_max_rounds :: "32 word"
  bench_desc :: "string option"

text \<open>The command line options, \<open>gbl_args->opt\<close>; \<open>rounds\<close> is a \<open>uint32_t\<close>.\<close>

record opt_t =
  opt_time :: int
  opt_bench_idx :: int
  opt_burst_size :: int
  opt_event_size :: int
  opt_rounds :: "32 word"
  opt_cache_size :: int
  opt_vector_size :: int

text \<open>
  The part of \<open>gbl_args_t\<close> the driver itself reads and writes. \<open>num_bench\<close> is the
  length of \<open>bench\<close>, as \<open>main\<close> sets it with \<open>ARRAY_SIZE\<close>.
\<close>

record 'w gbl_args_t =
  opt :: opt_t
  bench :: "'w bench_info_t list"
  bench_failed :: int

definition num_bench :: "'w gbl_args_t \<Rightarrow> nat" where
  "num_bench args = length (bench args)"

text \<open>
  The library calls the driver makes. The clocks and the atomic load of \<open>exit_thread\<close>
  read the outside; the two difference functions are pure; whether a set-up or
  tear-down call of ODP or EM succeeds is a flag. The signal handler stores 1 into
  \<open>exit_thread\<close> at any moment: in the model the store is part of what the call in
  progress, or the last one made, does to the outside, so the flag read at a poll is a
  function of the outside at that poll.
\<close>

record 'w env_t =
  exit_thread :: "'w \<Rightarrow> 32 word"
  odp_time_local :: "'w \<Rightarrow> 64 word"
  odp_cpu_cycles :: "'w \<Rightarrow> 64 word"
  odp_time_diff_ns :: "64 word \<Rightarrow> 64 word \<Rightarrow> 64 word"
  odp_cpu_cycles_diff :: "64 word \<Rightarrow> 64 word \<Rightarrow> 64 word"
  startup_ok :: bool
  create_queues_ok :: bool
  em_init_core_ok :: bool
  create_pools_ok :: bool
  odp_shm_free_ok :: bool
  odp_term_local_ok :: bool
  odp_term_global_ok :: bool

subsection \<open>What the driver does to the outside\<close>

text \<open>
  The driver is observed through the calls it makes and the lines it prints, kept in
  order in a trace. \<open>Bench_run j r\<close> is a call of \<open>bench[j].run\<close> that returned \<open>r\<close>.
  \<open>Print_result idx label total divisor\<close> is a result line: the index printed with
  \<open>%02d\<close>, the name printed, and the two operands of the division
  \<open>((double)total) / (max_rounds * REPEAT_COUNT)\<close> whose quotient is printed.
\<close>

datatype event =
    Bench_init nat
  | Bench_run nat int
  | Bench_term nat
  | Print_header bool
  | Print_running string
  | Print_result int string "64 word" "32 word"
  | Print_usage
  | Print_info
  | Odph_err string




text \<open>\<open>if (bench->init != NULL) bench->init();\<close>\<close>

definition call_init :: "'w bench_info_t \<Rightarrow> nat \<Rightarrow> 'w \<times> event list \<Rightarrow> 'w \<times> event list" where
  "call_init b j s =
     (case bench_init b of
        None \<Rightarrow> s
      | Some f \<Rightarrow> (f (fst s), snd s @ [Bench_init j]))"

text \<open>\<open>ret = bench->run();\<close>\<close>

definition call_run :: "'w bench_info_t \<Rightarrow> nat \<Rightarrow> 'w \<times> event list \<Rightarrow> int \<times> 'w \<times> event list" where
  "call_run b j s =
     (let (ret, w') = bench_run b (fst s) in (ret, w', snd s @ [Bench_run j ret]))"

text \<open>\<open>if (bench->term != NULL) bench->term();\<close>\<close>

definition call_term :: "'w bench_info_t \<Rightarrow> nat \<Rightarrow> 'w \<times> event list \<Rightarrow> 'w \<times> event list" where
  "call_term b j s =
     (case bench_term b of
        None \<Rightarrow> s
      | Some f \<Rightarrow> (f (fst s), snd s @ [Bench_term j]))"

text \<open>\<open>desc = bench->desc != NULL ? bench->desc : bench->name;\<close>\<close>

definition desc_of :: "'w bench_info_t \<Rightarrow> string" where
  "desc_of b = (case bench_desc b of Some d \<Rightarrow> d | None \<Rightarrow> bench_name b)"

subsection \<open>run\_indef\<close>

text \<open>
  \<^verbatim>\<open>
  while (!odp_atomic_load_u32(&gbl_args->exit_thread)) {
      if (bench->init != NULL) bench->init();
      ret = bench->run();
      if (bench->term != NULL) bench->term();
      if (!ret) ODPH_ABORT("Benchmark %s failed\n", desc);
  }
  \<close>
  The loop need not end, so the function is partial: \<open>None\<close> is a run that never
  returns. \<open>ODPH_ABORT\<close> ends the process: \<open>Indef_abort\<close>.
\<close>

datatype 'w indef_result =
    Indef_return 'w "event list"
  | Indef_abort 'w "event list"

partial_function (option) run_indef_loop ::
  "'w env_t \<Rightarrow> 'w bench_info_t \<Rightarrow> nat \<Rightarrow> 'w \<times> event list \<Rightarrow> 'w indef_result option"
where
  "run_indef_loop E b idx s =
     (if exit_thread E (fst s) = 0 then
        (case call_run b idx (call_init b idx s) of
           (ret, s2) \<Rightarrow>
             (let s3 = call_term b idx s2
              in if ret = 0
                 then Some (Indef_abort (fst s3)
                        (snd s3 @ [Odph_err (''Benchmark '' @ desc_of b @ '' failed'')]))
                 else run_indef_loop E b idx s3))
      else Some (Indef_return (fst s) (snd s)))"

declare run_indef_loop.simps [code]

text \<open>
  One turn of the loop of \<open>run_indef\<close>, the calls of \<open>init\<close>, \<open>run\<close> and \<open>term\<close>
  of a case, as a function on the outside and the trace, and the value \<open>run\<close> returns
  in that turn. A round of \<open>run_benchmarks\<close> in which \<open>run\<close> succeeds makes the same
  three calls.
\<close>

definition bench_cycle :: "'w bench_info_t \<Rightarrow> nat \<Rightarrow> 'w \<times> event list \<Rightarrow> 'w \<times> event list" where
  "bench_cycle b idx s = call_term b idx (snd (call_run b idx (call_init b idx s)))"

definition bench_ret :: "'w bench_info_t \<Rightarrow> nat \<Rightarrow> 'w \<times> event list \<Rightarrow> int" where
  "bench_ret b idx s = fst (call_run b idx (call_init b idx s))"

definition run_indef ::
  "'w env_t \<Rightarrow> 'w gbl_args_t \<Rightarrow> nat \<Rightarrow> 'w \<times> event list \<Rightarrow> 'w indef_result option"
where
  "run_indef E args idx s =
     (let b = bench args ! idx
      in run_indef_loop E b idx (fst s, snd s @ [Print_running (desc_of b)]))"


subsection \<open>run\_benchmarks\<close>

text \<open>
  \<^verbatim>\<open>
  uint32_t max_rounds = args->opt.rounds;
  if (bench->max_rounds && max_rounds > bench->max_rounds)
      max_rounds = bench->max_rounds;
  \<close>
\<close>

definition max_rounds_of :: "opt_t \<Rightarrow> 'w bench_info_t \<Rightarrow> 32 word" where
  "max_rounds_of opts b =
     (if bench_max_rounds b \<noteq> 0 \<and> opt_rounds opts > bench_max_rounds b
      then bench_max_rounds b
      else opt_rounds opts)"

text \<open>\<open>if (meas_time) t1 = odp_time_local(); else c1 = odp_cpu_cycles();\<close>\<close>

definition stamp :: "'w env_t \<Rightarrow> opt_t \<Rightarrow> 'w \<Rightarrow> 64 word" where
  "stamp E opts w = (if opt_time opts \<noteq> 0 then odp_time_local E w else odp_cpu_cycles E w)"

text \<open>\<open>meas_time ? odp_time_diff_ns(t2, t1) : odp_cpu_cycles_diff(c2, c1)\<close>\<close>

definition elapsed :: "'w env_t \<Rightarrow> opt_t \<Rightarrow> 64 word \<Rightarrow> 64 word \<Rightarrow> 64 word" where
  "elapsed E opts t2 t1 =
     (if opt_time opts \<noteq> 0 then odp_time_diff_ns E t2 t1 else odp_cpu_cycles_diff E t2 t1)"

text \<open>
  The name on a result line: \<open>desc\<close> with the format \<open>"[%02d] %-35s: %12.2f"\<close> when
  \<open>bench->desc\<close> is set, the function name after \<open>em_\<close> otherwise.
\<close>

definition label_of :: "'w bench_info_t \<Rightarrow> string" where
  "label_of b = (case bench_desc b of Some d \<Rightarrow> d | None \<Rightarrow> ''em_'' @ bench_name b)"

text \<open>
  How the inner \<open>for\<close> loop is left: its condition became false, or \<open>goto exit\<close> with
  the value of \<open>args->bench_failed\<close> at that point, or \<open>ODPH_ABORT\<close> in \<open>run_indef\<close>.
\<close>

datatype 'w loop_exit =
    Loop_end 'w "event list"
  | Goto_exit int 'w "event list"
  | Abort 'w "event list"

text \<open>
  One pass through the body of the inner loop, for pass \<open>i\<close>, case \<open>j\<close>, the round
  counter and the running total. \<open>Next\<close> carries the values of \<open>j\<close>, \<open>round\<close> and
  \<open>total\<close> at the end of the body (or at \<open>continue\<close>), before the \<open>round++\<close> of the
  loop header; \<open>Leave\<close> is a jump out of both loops.
\<close>

datatype 'w body_result =
    Next nat "32 word" "64 word" "'w \<times> event list"
  | Leave "'w loop_exit option"

definition bench_body ::
  "'w env_t \<Rightarrow> 'w gbl_args_t \<Rightarrow> nat \<Rightarrow> nat \<Rightarrow> 32 word \<Rightarrow> 64 word \<Rightarrow> 'w \<times> event list
     \<Rightarrow> 'w body_result"
where
  "bench_body E args i j rnd tot s =
     (let b = bench args ! j;
          max_rounds = max_rounds_of (opt args) b
      in if opt_bench_idx (opt args) \<noteq> 0 then
           (if int j + 1 \<noteq> opt_bench_idx (opt args)
            then Next (j + 1) rnd tot s
            else Leave (case run_indef E args j s of
                          None \<Rightarrow> None
                        | Some (Indef_return w tr) \<Rightarrow> Some (Goto_exit (bench_failed args) w tr)
                        | Some (Indef_abort w tr) \<Rightarrow> Some (Abort w tr)))
         else
           (let s1 = call_init b j s;
                t1 = stamp E (opt args) (fst s1)
            in case call_run b j s1 of
                 (ret, s2) \<Rightarrow>
                   (let t2 = stamp E (opt args) (fst s2)
                    in if ret = 0
                       then Leave (Some (Goto_exit (- 1) (fst s2)
                              (snd s2 @ [Odph_err (''Benchmark '' @ desc_of b @ '' failed'')])))
                       else
                         (let s3 = call_term b j s2;
                              tot' = tot + elapsed E (opt args) t2 t1
                          in if rnd \<ge> max_rounds
                             then Next (j + 1) 1 0
                                    (fst s3,
                                     snd s3 @
                                       (if i > 0
                                        then [Print_result (int j + 1) (label_of b) tot'
                                                (max_rounds * word_of_int REPEAT_COUNT)]
                                        else []))
                             else Next j rnd tot' s3))))"

text \<open>
  When the body ends without leaving the loops, either the case index went up by one,
  or it stayed and the round counter is below its ceiling.
\<close>

lemma bench_body_Next:
  assumes "bench_body E args i j rnd tot s = Next j' rnd' tot' s'"
  shows "j' = j + 1 \<or> (j' = j \<and> rnd' = rnd \<and> rnd < max_rounds_of (opt args) (bench args ! j))"
  using assms
  by (auto simp: bench_body_def Let_def split: if_splits prod.splits)

lemma unat_round_incr:
  fixes rnd :: "32 word"
  assumes "rnd < m"
  shows "unat (rnd + 1) = Suc (unat rnd)"
proof -
  have "rnd \<noteq> - 1" using assms by (metis word_order.extremum_strict)
  then have "rnd + 1 \<noteq> 0" by (metis add.commute add_eq_0_iff)
  then show ?thesis by (metis add.commute unatSuc)
qed

text \<open>
  \<^verbatim>\<open>
  for (j = 0; j < gbl_args->num_bench && !odp_atomic_load_u32(&gbl_args->exit_thread); round++) {
      body
  }
  \<close>
\<close>

function bench_loop ::
  "'w env_t \<Rightarrow> 'w gbl_args_t \<Rightarrow> nat \<Rightarrow> nat \<Rightarrow> 32 word \<Rightarrow> 64 word \<Rightarrow> 'w \<times> event list
     \<Rightarrow> 'w loop_exit option"
where
  "bench_loop E args i j rnd tot s =
     (if j < num_bench args \<and> exit_thread E (fst s) = 0 then
        (case bench_body E args i j rnd tot s of
           Next j' rnd' tot' s' \<Rightarrow> bench_loop E args i j' (rnd' + 1) tot' s'
         | Leave x \<Rightarrow> x)
      else Some (Loop_end (fst s) (snd s)))"
  by pat_completeness auto
termination
proof (relation "measures [\<lambda>(E, args, i, j, rnd, tot, s). num_bench args - j,
                           \<lambda>(E, args, i, j, rnd, tot, s). 2 ^ 32 - unat rnd]", goal_cases)
  case 1
  show ?case by simp
next
  case (2 E args i j rnd tot s j' rnd' tot' s')
  from bench_body_Next[OF 2(2)] show ?case
  proof
    assume "j' = j + 1"
    moreover have "j < num_bench args" using 2(1) by simp
    ultimately show ?thesis by auto
  next
    assume a: "j' = j \<and> rnd' = rnd \<and> rnd < max_rounds_of (opt args) (bench args ! j)"
    then have "unat (rnd + 1) = Suc (unat rnd)" by (metis unat_round_incr)
    moreover have "unat rnd < 2 ^ 32" using unsigned_less[of rnd] by simp
    ultimately show ?thesis using a by simp
  qed
qed

declare bench_loop.simps [simp del]

text \<open>
  \<^verbatim>\<open>
  for (i = 0; i < 2; i++) {
      uint64_t total = 0;
      uint32_t round = 1;
      for (j = 0; ...; round++) { ... }
  }
  \<close>
\<close>

function bench_passes ::
  "'w env_t \<Rightarrow> 'w gbl_args_t \<Rightarrow> nat \<Rightarrow> 'w \<times> event list \<Rightarrow> 'w loop_exit option"
where
  "bench_passes E args i s =
     (if i < 2 then
        (case bench_loop E args i 0 1 0 s of
           Some (Loop_end w tr) \<Rightarrow> bench_passes E args (i + 1) (w, tr)
         | x \<Rightarrow> x)
      else Some (Loop_end (fst s) (snd s)))"
  by pat_completeness auto
termination
  by (relation "measure (\<lambda>(E, args, i, s). 2 - i)") auto

declare bench_passes.simps [simp del]

text \<open>
  What the worker thread ends with: the value \<open>run_benchmarks\<close> returns and
  \<open>args->bench_failed\<close>, or the abort of the process. The \<open>ret\<close> that is returned at
  the label \<open>exit\<close> is the one declared at the top of the function and is still 0 there:
  the loop body assigns the \<open>ret\<close> it declares itself.
\<close>

datatype 'w thread_result =
    Thread_return int int 'w "event list"
  | Thread_abort 'w "event list"

definition run_benchmarks ::
  "'w env_t \<Rightarrow> 'w gbl_args_t \<Rightarrow> 'w \<times> event list \<Rightarrow> 'w thread_result option"
where
  "run_benchmarks E args s =
     (if \<not> em_init_core_ok E
      then Some (Thread_return (- 1) (bench_failed args) (fst s)
                   (snd s @ [Odph_err ''EM core init failed'']))
      else if \<not> create_pools_ok E
      then Some (Thread_return (- 1) (bench_failed args) (fst s)
                   (snd s @ [Odph_err ''EM pool create failed'']))
      else
        (case bench_passes E args 0 (fst s, snd s @ [Print_header (opt_time (opt args) \<noteq> 0)]) of
           None \<Rightarrow> None
         | Some (Loop_end w tr) \<Rightarrow> Some (Thread_return 0 (bench_failed args) w tr)
         | Some (Goto_exit failed w tr) \<Rightarrow> Some (Thread_return 0 failed w tr)
         | Some (Abort w tr) \<Rightarrow> Some (Thread_abort w tr)))"


text \<open>The result lines of a trace, in order: the index and the name each one prints.\<close>

fun result_lines :: "event list \<Rightarrow> (int \<times> string) list" where
  "result_lines [] = []"
| "result_lines (Print_result idx label tot divisor # tr) = (idx, label) # result_lines tr"
| "result_lines (e # tr) = result_lines tr"

section \<open>The command line and main\<close>

subsection \<open>parse\_args\<close>

text \<open>
  \<open>getopt_long\<close> and \<open>atoi\<close> are library functions. The command line reaches the
  model as the list of the option characters \<open>getopt_long\<close> returns, in order, each
  with the value of \<open>atoi(optarg)\<close> (unused for an option without argument). Any
  character that is not an option of the program takes the \<open>default\<close> branch.
\<close>

definition default_opt :: opt_t where
  "default_opt =
     \<lparr> opt_time = 0, opt_bench_idx = 0, opt_burst_size = 8, opt_event_size = 1024,
       opt_rounds = 1000, opt_cache_size = - 1, opt_vector_size = 8 \<rparr>"

text \<open>
  The \<open>while (1)\<close> loop over the options: \<open>Inl r\<close> is the \<open>return r\<close> inside the
  \<open>switch\<close>, \<open>Inr\<close> the options stored when \<open>getopt_long\<close> returned \<open>-1\<close>.
  Storing the \<open>int\<close> of \<open>atoi\<close> into \<open>rounds\<close> converts it to \<open>uint32_t\<close>.
\<close>

fun parse_opts :: "(char \<times> int) list \<Rightarrow> opt_t \<Rightarrow> (int \<times> event list) + opt_t" where
  "parse_opts [] opts = Inr opts"
| "parse_opts ((c, v) # rest) opts =
     (if c = CHR ''b'' then parse_opts rest (opts\<lparr>opt_burst_size := v\<rparr>)
      else if c = CHR ''c'' then parse_opts rest (opts\<lparr>opt_cache_size := v\<rparr>)
      else if c = CHR ''e'' then parse_opts rest (opts\<lparr>opt_event_size := v\<rparr>)
      else if c = CHR ''t'' then parse_opts rest (opts\<lparr>opt_time := v\<rparr>)
      else if c = CHR ''i'' then parse_opts rest (opts\<lparr>opt_bench_idx := v\<rparr>)
      else if c = CHR ''r'' then parse_opts rest (opts\<lparr>opt_rounds := word_of_int v\<rparr>)
      else if c = CHR ''v'' then parse_opts rest (opts\<lparr>opt_vector_size := v\<rparr>)
      else if c = CHR ''h'' then Inl (1, [Print_usage])
      else Inl (- 1, [Odph_err ''Bad option. Use -h for help.'']))"

definition EXIT_SUCCESS :: int where
  "EXIT_SUCCESS = 0"

definition EXIT_FAILURE :: int where
  "EXIT_FAILURE = 1"

text \<open>
  \<open>parse_args\<close> either returns to \<open>main\<close> with a value, or ends the process with
  \<open>exit(EXIT_FAILURE)\<close>. After a return inside the option loop \<open>main\<close> goes to its
  label \<open>exit\<close> and reads no option, so the options carried with that return do not
  matter.
\<close>

datatype parse_result =
    Parse_return int opt_t "event list"
  | Parse_exit int "event list"

definition parse_args :: "(char \<times> int) list \<Rightarrow> nat \<Rightarrow> parse_result" where
  "parse_args argv nbench =
     (case parse_opts argv default_opt of
        Inl (r, tr) \<Rightarrow> Parse_return r default_opt tr
      | Inr opts \<Rightarrow>
          if opt_burst_size opts < 1 \<or> opt_burst_size opts > MAX_BURST
          then Parse_exit EXIT_FAILURE [Odph_err ''Invalid burst size (max 64)'']
          else if opt_rounds opts < 1
          then Parse_return (- 1) opts [Odph_err ''Invalid test cycle repeat count'']
          else if opt_bench_idx opts < 0 \<or> opt_bench_idx opts > int nbench
          then Parse_return (- 1) opts [Odph_err ''Bad bench index'']
          else Parse_return 0 opts [])"

subsection \<open>main\<close>

text \<open>
  How the process ends: \<open>Exit\<close> with the exit status, or killed by the \<open>abort()\<close> of
  \<open>ODPH_ABORT\<close>.
\<close>

datatype 'w process_result =
    Exit int 'w "event list"
  | Sigabrt 'w "event list"

text \<open>
  From the label \<open>exit\<close> of \<open>main\<close>. The calls whose failure only prints a message
  (deleting the pools and the queue, \<open>em_term_core\<close>, \<open>em_term\<close>) are left out; each
  of the last three calls ends the process with \<open>exit(EXIT_FAILURE)\<close> when it fails.
\<close>

definition main_exit :: "'w env_t \<Rightarrow> int \<Rightarrow> 'w \<times> event list \<Rightarrow> 'w process_result" where
  "main_exit E ret s =
     (if \<not> odp_shm_free_ok E
      then Exit EXIT_FAILURE (fst s) (snd s @ [Odph_err ''Shared mem free failed''])
      else if \<not> odp_term_local_ok E
      then Exit EXIT_FAILURE (fst s) (snd s @ [Odph_err ''Local term failed''])
      else if \<not> odp_term_global_ok E
      then Exit EXIT_FAILURE (fst s) (snd s @ [Odph_err ''Global term failed''])
      else if ret < 0 then Exit EXIT_FAILURE (fst s) (snd s)
      else Exit EXIT_SUCCESS (fst s) (snd s))"

text \<open>
  \<open>startup_ok\<close> stands for the calls of \<open>main\<close> before \<open>parse_args\<close>: when one of
  them fails, \<open>main\<close> calls \<open>exit(EXIT_FAILURE)\<close>. \<open>main\<close> starts the worker thread
  on \<open>run_benchmarks\<close> and waits for it in \<open>odph_thread_join\<close>, then reads
  \<open>gbl_args->bench_failed\<close>; the value the thread function returned is not read.
  \<open>memset\<close> has set \<open>bench_failed\<close> to 0.
\<close>

definition main ::
  "'w env_t \<Rightarrow> (char \<times> int) list \<Rightarrow> 'w bench_info_t list \<Rightarrow> 'w \<Rightarrow> 'w process_result option"
where
  "main E argv test_suite w =
     (if \<not> startup_ok E then Some (Exit EXIT_FAILURE w [Odph_err ''Init failed''])
      else
        (case parse_args argv (length test_suite) of
           Parse_exit status tr \<Rightarrow> Some (Exit status w tr)
         | Parse_return ret opts tr \<Rightarrow>
             if ret \<noteq> 0 then Some (main_exit E ret (w, tr))
             else if \<not> create_queues_ok E
             then Some (main_exit E ret
                          (w, tr @ [Print_info, Odph_err ''EM unscheduled queue create failed'']))
             else
               (case run_benchmarks E \<lparr> opt = opts, bench = test_suite, bench_failed = 0 \<rparr>
                       (w, tr @ [Print_info]) of
                  None \<Rightarrow> None
                | Some (Thread_abort w' tr') \<Rightarrow> Some (Sigabrt w' tr')
                | Some (Thread_return r failed w' tr') \<Rightarrow> Some (main_exit E failed (w', tr')))))"


section \<open>A small outside for concrete runs\<close>

text \<open>
  The outside is a counter of ticks, read by both clocks. \<open>exit_thread\<close> is set once
  the counter has reached \<open>k\<close> when the argument is \<open>Some k\<close>, and never when it is
  \<open>None\<close>. Every library call succeeds.
\<close>

definition plain_env :: "nat option \<Rightarrow> nat env_t" where
  "plain_env stop =
     \<lparr> exit_thread = (\<lambda>w. case stop of None \<Rightarrow> 0 | Some k \<Rightarrow> if k \<le> w then 1 else 0),
       odp_time_local = of_nat,
       odp_cpu_cycles = of_nat,
       odp_time_diff_ns = (\<lambda>t2 t1. t2 - t1),
       odp_cpu_cycles_diff = (\<lambda>c2 c1. c2 - c1),
       startup_ok = True, create_queues_ok = True, em_init_core_ok = True,
       create_pools_ok = True, odp_shm_free_ok = True, odp_term_local_ok = True,
       odp_term_global_ok = True \<rparr>"

text \<open>A test case whose \<open>run\<close> takes one tick and returns \<open>r\<close>, without \<open>init\<close> and \<open>term\<close>.\<close>

definition tick_case :: "string \<Rightarrow> int \<Rightarrow> nat bench_info_t" where
  "tick_case nm r =
     \<lparr> bench_name = nm, bench_run = (\<lambda>w. (r, Suc w)), bench_init = None, bench_term = None,
       bench_max_rounds = 0, bench_desc = None \<rparr>"

text \<open>The same with an \<open>init\<close> and a \<open>term\<close> that leave the counter as it is.\<close>

definition cycle_case :: "string \<Rightarrow> int \<Rightarrow> nat bench_info_t" where
  "cycle_case nm r =
     \<lparr> bench_name = nm, bench_run = (\<lambda>w. (r, Suc w)), bench_init = Some id, bench_term = Some id,
       bench_max_rounds = 0, bench_desc = None \<rparr>"

section \<open>Table indices used by the test functions\<close>

text \<open>
  The tables of \<open>gbl_args_t\<close>, each declared with \<open>MAX_EVENTS\<close> entries.
\<close>

datatype table =
    Event_tbl | Event2_tbl | Ptr_tbl | U16_tbl | U32_tbl | Et_tbl | Pool_tbl | Odp_event_tbl

text \<open>
  For every \<open>init\<close>, \<open>run\<close> and \<open>term\<close> function of \<open>test_suite\<close> the model keeps
  what matters for the bounds of the tables: the list of the entries the function
  touches, a table and an \<open>int\<close> index each, one for every index expression of the
  function's text, in the order of evaluation. \<open>at t i\<close> is an access \<open>t[i]\<close>.
  \<open>span t off n\<close> is a call of a library function with the pointer \<open>&t[off]\<close> and the
  count \<open>n\<close>: the function may touch the \<open>n\<close> entries from \<open>off\<close> on.
  \<open>for_loop n body\<close> is \<open>for (i = 0; i < n; i++) body\<close>. A branch not taken or an
  early return (\<open>return 0; /* error */\<close>) only leaves accesses of the list out.
\<close>

type_synonym access = "table \<times> int"

definition at :: "table \<Rightarrow> int \<Rightarrow> access list" where
  "at t i = [(t, i)]"

definition span :: "table \<Rightarrow> int \<Rightarrow> int \<Rightarrow> access list" where
  "span t off n = map (\<lambda>k. (t, off + int k)) [0..<nat n]"

definition for_loop :: "int \<Rightarrow> (int \<Rightarrow> access list) \<Rightarrow> access list" where
  "for_loop n body = concat (map (\<lambda>i. body (int i)) [0..<nat n])"

subsection \<open>Set-up and release of the test events\<close>

text \<open>
  \<open>init_test_events\<close>: \<open>em_event_uarea_id_set(event[i], i)\<close>, then
  \<open>gbl_args->odp_event_tbl[i] = em_odp_event2odp(event[i])\<close>.
\<close>

definition init_test_events_access :: "table \<Rightarrow> int \<Rightarrow> access list" where
  "init_test_events_access event num =
     for_loop num (\<lambda>i. at event i @ at event i @ at Odp_event_tbl i)"

text \<open>
  \<open>allocate_test_events\<close>: each call of \<open>em_alloc_multi\<close> gets \<open>&event[num_events]\<close>
  and \<open>num - num_events\<close>; the calls are those logged by the model of the loop.
\<close>

definition allocate_test_events_access ::
  "('p \<Rightarrow> int \<Rightarrow> int \<times> 'p) \<Rightarrow> 'p \<Rightarrow> table \<Rightarrow> int \<Rightarrow> access list"
where
  "allocate_test_events_access em_alloc_multi pool event num =
     concat (map (\<lambda>(off, n). span event off n)
                 (alloc_calls (allocate_test_events em_alloc_multi num pool)))"

text \<open>
  \<open>allocate_test_ext_pktevents\<close>: the packets go to the local arrays \<open>odp_pkts[num]\<close>
  and \<open>odp_evs[num]\<close>; the table is written by \<open>em_odp_events2em(odp_evs, events, num)\<close>.
\<close>

definition allocate_test_ext_pktevents_access :: "table \<Rightarrow> int \<Rightarrow> access list" where
  "allocate_test_ext_pktevents_access events num = span events 0 num"

definition create_packets_access :: "('p \<Rightarrow> int \<Rightarrow> int \<times> 'p) \<Rightarrow> 'p \<Rightarrow> access list" where
  "create_packets_access em_alloc_multi pool =
     allocate_test_events_access em_alloc_multi pool Event_tbl REPEAT_COUNT @
     init_test_events_access Event_tbl REPEAT_COUNT"

definition create_ext_packets_access :: "access list" where
  "create_ext_packets_access = allocate_test_ext_pktevents_access Event_tbl REPEAT_COUNT"

definition create_packets_multi_access ::
  "('p \<Rightarrow> int \<Rightarrow> int \<times> 'p) \<Rightarrow> 'p \<Rightarrow> int \<Rightarrow> access list"
where
  "create_packets_multi_access em_alloc_multi pool burst_size =
     (let num_events = REPEAT_COUNT * burst_size
      in allocate_test_events_access em_alloc_multi pool Event_tbl num_events @
         init_test_events_access Event_tbl num_events)"

definition create_sw_events_access :: "('p \<Rightarrow> int \<Rightarrow> int \<times> 'p) \<Rightarrow> 'p \<Rightarrow> access list" where
  "create_sw_events_access em_alloc_multi pool =
     allocate_test_events_access em_alloc_multi pool Event_tbl REPEAT_COUNT @
     init_test_events_access Event_tbl REPEAT_COUNT"

definition create_sw_events_multi_access ::
  "('p \<Rightarrow> int \<Rightarrow> int \<times> 'p) \<Rightarrow> 'p \<Rightarrow> int \<Rightarrow> access list"
where
  "create_sw_events_multi_access em_alloc_multi pool burst_size =
     (let num_events = REPEAT_COUNT * burst_size
      in allocate_test_events_access em_alloc_multi pool Event_tbl num_events @
         init_test_events_access Event_tbl num_events)"

definition create_vectors_access :: "('p \<Rightarrow> int \<Rightarrow> int \<times> 'p) \<Rightarrow> 'p \<Rightarrow> access list" where
  "create_vectors_access em_alloc_multi pool =
     allocate_test_events_access em_alloc_multi pool Event_tbl REPEAT_COUNT @
     init_test_events_access Event_tbl REPEAT_COUNT"

definition create_vectors_multi_access ::
  "('p \<Rightarrow> int \<Rightarrow> int \<times> 'p) \<Rightarrow> 'p \<Rightarrow> int \<Rightarrow> access list"
where
  "create_vectors_multi_access em_alloc_multi pool burst_size =
     (let num_events = REPEAT_COUNT * burst_size
      in allocate_test_events_access em_alloc_multi pool Event_tbl num_events @
         init_test_events_access Event_tbl REPEAT_COUNT)"

text \<open>
  \<open>free_event_tbl\<close> compares \<open>event_tbl[i]\<close>, hands it to \<open>em_free\<close> and overwrites
  it, for every \<open>i < num\<close>.
\<close>

definition free_event_tbl_access :: "table \<Rightarrow> int \<Rightarrow> access list" where
  "free_event_tbl_access t num = for_loop num (\<lambda>i. at t i @ at t i @ at t i)"

definition free_events_access :: "access list" where
  "free_events_access = free_event_tbl_access Event_tbl REPEAT_COUNT"

definition free_events_multi_access :: "int \<Rightarrow> access list" where
  "free_events_multi_access burst_size =
     free_event_tbl_access Event_tbl (REPEAT_COUNT * burst_size)"

definition free_vectors_access :: "access list" where
  "free_vectors_access = for_loop REPEAT_COUNT (\<lambda>i. at Event_tbl i) @ free_events_access"

definition free_clone_events_access :: "access list" where
  "free_clone_events_access =
     free_event_tbl_access Event_tbl REPEAT_COUNT @ free_event_tbl_access Event2_tbl REPEAT_COUNT"

subsection \<open>The test functions\<close>

text \<open>\<open>event_alloc\<close>, behind \<open>event_sw_alloc\<close>, \<open>event_pkt_alloc\<close>, \<open>event_vector_alloc\<close>.\<close>

definition event_alloc_access :: "access list" where
  "event_alloc_access = for_loop REPEAT_COUNT (\<lambda>i. at Event_tbl i)"

text \<open>\<open>event_alloc_multi\<close>, behind the three \<open>event_*_alloc_multi\<close>.\<close>

definition event_alloc_multi_access :: "int \<Rightarrow> access list" where
  "event_alloc_multi_access burst_size =
     for_loop REPEAT_COUNT (\<lambda>i. span Event_tbl (i * burst_size) burst_size)"

text \<open>\<open>alloc_free\<close> keeps the event in a local variable.\<close>

definition alloc_free_access :: "access list" where
  "alloc_free_access = for_loop REPEAT_COUNT (\<lambda>i. [])"

text \<open>
  \<open>alloc_free_multi\<close>: \<open>em_alloc_multi(Event_tbl, burst_size, ...)\<close>, then
  \<open>em_free_multi(Event_tbl, ret)\<close> with the \<open>ret\<close> of the allocation, at most
  \<open>burst_size\<close>.
\<close>

definition alloc_free_multi_access :: "int \<Rightarrow> access list" where
  "alloc_free_multi_access burst_size =
     for_loop REPEAT_COUNT (\<lambda>i. span Event_tbl 0 burst_size @ span Event_tbl 0 burst_size)"

definition event_free_access :: "access list" where
  "event_free_access = for_loop REPEAT_COUNT (\<lambda>i. at Event_tbl i)"

definition event_free_multi_access :: "int \<Rightarrow> access list" where
  "event_free_multi_access burst_size =
     for_loop REPEAT_COUNT (\<lambda>i. span Event_tbl (i * burst_size) burst_size)"

text \<open>\<open>event_pointer\<close>, \<open>event_uarea_get\<close>, \<open>event_uarea_get_size\<close>: \<open>ptr[i] = f(event_tbl[i])\<close>.\<close>

definition event_pointer_access :: "access list" where
  "event_pointer_access = for_loop REPEAT_COUNT (\<lambda>i. at Event_tbl i @ at Ptr_tbl i)"

definition event_uarea_get_access :: "access list" where
  "event_uarea_get_access = for_loop REPEAT_COUNT (\<lambda>i. at Event_tbl i @ at Ptr_tbl i)"

definition event_uarea_get_size_access :: "access list" where
  "event_uarea_get_size_access = for_loop REPEAT_COUNT (\<lambda>i. at Event_tbl i @ at Ptr_tbl i)"

definition event_get_size_access :: "access list" where
  "event_get_size_access = for_loop REPEAT_COUNT (\<lambda>i. at Event_tbl i @ at U32_tbl i)"

definition event_get_type_access :: "access list" where
  "event_get_type_access = for_loop REPEAT_COUNT (\<lambda>i. at Event_tbl i @ at Et_tbl i)"

definition event_get_type_multi_access :: "int \<Rightarrow> access list" where
  "event_get_type_multi_access burst_size =
     for_loop REPEAT_COUNT
       (\<lambda>i. span Event_tbl (i * burst_size) burst_size @ span Et_tbl (i * burst_size) burst_size)"

text \<open>\<open>event_same_type_multi\<close> passes \<open>&et[i]\<close> for the one type it writes.\<close>

definition event_same_type_multi_access :: "int \<Rightarrow> access list" where
  "event_same_type_multi_access burst_size =
     for_loop REPEAT_COUNT (\<lambda>i. span Event_tbl (i * burst_size) burst_size @ at Et_tbl i)"

definition event_set_type_access :: "access list" where
  "event_set_type_access = for_loop REPEAT_COUNT (\<lambda>i. at Event_tbl i)"

definition event_get_pool_access :: "access list" where
  "event_get_pool_access = for_loop REPEAT_COUNT (\<lambda>i. at Event_tbl i @ at Pool_tbl i)"

definition event_uarea_id_get_access :: "access list" where
  "event_uarea_id_get_access = for_loop REPEAT_COUNT (\<lambda>i. at Event_tbl i @ at U16_tbl i)"

definition event_uarea_id_set_access :: "access list" where
  "event_uarea_id_set_access = for_loop REPEAT_COUNT (\<lambda>i. at Event_tbl i)"

definition event_uarea_info_access :: "access list" where
  "event_uarea_info_access = for_loop REPEAT_COUNT (\<lambda>i. at Event_tbl i)"

definition event_has_ref_access :: "access list" where
  "event_has_ref_access = for_loop REPEAT_COUNT (\<lambda>i. at Event_tbl i)"

text \<open>\<open>event_ref\<close> and \<open>event_clone\<close>: \<open>event2_tbl[i] = f(event_tbl[i])\<close>.\<close>

definition event_ref_access :: "access list" where
  "event_ref_access = for_loop REPEAT_COUNT (\<lambda>i. at Event_tbl i @ at Event2_tbl i)"

definition event_clone_access :: "access list" where
  "event_clone_access = for_loop REPEAT_COUNT (\<lambda>i. at Event_tbl i @ at Event2_tbl i)"

text \<open>
  \<open>event_vector_free\<close>, \<open>event_vector_tbl\<close>, \<open>event_vector_size\<close>,
  \<open>event_vector_max_size\<close>, \<open>event_vector_size_set\<close>, \<open>event_vector_info\<close>: each reads
  \<open>event_tbl[i]\<close>.
\<close>

definition event_vector_access :: "access list" where
  "event_vector_access = for_loop REPEAT_COUNT (\<lambda>i. at Event_tbl i)"

text \<open>\<open>core_id\<close> and \<open>core_count\<close>: \<open>u32[i] = f()\<close>.\<close>

definition core_access :: "access list" where
  "core_access = for_loop REPEAT_COUNT (\<lambda>i. at U32_tbl i)"

definition odp_event2odp_access :: "access list" where
  "odp_event2odp_access = for_loop REPEAT_COUNT (\<lambda>i. at Event_tbl i @ at Odp_event_tbl i)"

definition odp_events2odp_access :: "int \<Rightarrow> access list" where
  "odp_events2odp_access burst_size =
     for_loop REPEAT_COUNT
       (\<lambda>i. span Event_tbl (i * burst_size) burst_size @
            span Odp_event_tbl (i * burst_size) burst_size)"

definition odp_event2em_access :: "access list" where
  "odp_event2em_access = for_loop REPEAT_COUNT (\<lambda>i. at Odp_event_tbl i @ at Event_tbl i)"

definition odp_events2em_access :: "int \<Rightarrow> access list" where
  "odp_events2em_access burst_size =
     for_loop REPEAT_COUNT
       (\<lambda>i. span Odp_event_tbl (i * burst_size) burst_size @
            span Event_tbl (i * burst_size) burst_size)"

definition unsched_send_access :: "access list" where
  "unsched_send_access = for_loop REPEAT_COUNT (\<lambda>i. at Event_tbl i)"

definition unsched_send_multi_access :: "int \<Rightarrow> access list" where
  "unsched_send_multi_access burst_size =
     for_loop REPEAT_COUNT (\<lambda>i. span Event_tbl (i * burst_size) burst_size)"

definition unsched_dequeue_access :: "access list" where
  "unsched_dequeue_access = for_loop REPEAT_COUNT (\<lambda>i. at Event_tbl i @ at Event_tbl i)"

definition unsched_dequeue_multi_access :: "int \<Rightarrow> access list" where
  "unsched_dequeue_multi_access burst_size =
     for_loop REPEAT_COUNT (\<lambda>i. span Event_tbl (i * burst_size) burst_size)"

definition unsched_send_dequeue_access :: "access list" where
  "unsched_send_dequeue_access =
     for_loop REPEAT_COUNT (\<lambda>i. at Event_tbl i @ at Event_tbl i @ at Event_tbl i)"

definition unsched_send_dequeue_multi_access :: "int \<Rightarrow> access list" where
  "unsched_send_dequeue_multi_access burst_size =
     for_loop REPEAT_COUNT
       (\<lambda>i. span Event_tbl (i * burst_size) burst_size @
            span Event_tbl (i * burst_size) burst_size)"

definition unsched_dequeue_free_access :: "access list" where
  "unsched_dequeue_free_access = unsched_dequeue_access @ free_events_access"

definition unsched_dequeue_free_multi_access :: "int \<Rightarrow> access list" where
  "unsched_dequeue_free_multi_access burst_size =
     unsched_dequeue_multi_access burst_size @ free_events_multi_access burst_size"

definition create_send_unsched_sw_events_access ::
  "('p \<Rightarrow> int \<Rightarrow> int \<times> 'p) \<Rightarrow> 'p \<Rightarrow> access list"
where
  "create_send_unsched_sw_events_access em_alloc_multi pool =
     create_sw_events_access em_alloc_multi pool @ unsched_send_access"

definition create_send_unsched_sw_events_multi_access ::
  "('p \<Rightarrow> int \<Rightarrow> int \<times> 'p) \<Rightarrow> 'p \<Rightarrow> int \<Rightarrow> access list"
where
  "create_send_unsched_sw_events_multi_access em_alloc_multi pool burst_size =
     create_sw_events_multi_access em_alloc_multi pool burst_size @
     unsched_send_multi_access burst_size"

subsection \<open>The functions of test\_suite\<close>

text \<open>
  Every function that \<open>test_suite\<close> names as \<open>run\<close>, \<open>init\<close> or \<open>term\<close>, with the
  entries it touches for a burst size, an allocator and a state of the pools.
\<close>

definition run_functions :: "int \<Rightarrow> (string \<times> access list) list" where
  "run_functions burst_size =
     [(''event_sw_alloc'', event_alloc_access),
      (''event_pkt_alloc'', event_alloc_access),
      (''event_vector_alloc'', event_alloc_access),
      (''event_sw_alloc_multi'', event_alloc_multi_access burst_size),
      (''event_pkt_alloc_multi'', event_alloc_multi_access burst_size),
      (''event_vector_alloc_multi'', event_alloc_multi_access burst_size),
      (''event_free'', event_free_access),
      (''event_free_multi'', event_free_multi_access burst_size),
      (''event_vector_free'', event_vector_access),
      (''event_sw_alloc_free'', alloc_free_access),
      (''event_pkt_alloc_free'', alloc_free_access),
      (''event_vector_alloc_free'', alloc_free_access),
      (''event_sw_alloc_free_multi'', alloc_free_multi_access burst_size),
      (''event_pkt_alloc_free_multi'', alloc_free_multi_access burst_size),
      (''event_vector_alloc_free_multi'', alloc_free_multi_access burst_size),
      (''unsched_send'', unsched_send_access),
      (''unsched_send_multi'', unsched_send_multi_access burst_size),
      (''unsched_dequeue'', unsched_dequeue_access),
      (''unsched_dequeue_multi'', unsched_dequeue_multi_access burst_size),
      (''unsched_send_dequeue'', unsched_send_dequeue_access),
      (''unsched_send_dequeue_multi'', unsched_send_dequeue_multi_access burst_size),
      (''event_clone'', event_clone_access),
      (''event_has_ref'', event_has_ref_access),
      (''event_ref'', event_ref_access),
      (''event_pointer'', event_pointer_access),
      (''event_uarea_get'', event_uarea_get_access),
      (''event_uarea_get_size'', event_uarea_get_size_access),
      (''event_uarea_id_get'', event_uarea_id_get_access),
      (''event_uarea_id_set'', event_uarea_id_set_access),
      (''event_uarea_info'', event_uarea_info_access),
      (''event_get_size'', event_get_size_access),
      (''event_get_type'', event_get_type_access),
      (''event_get_type_multi'', event_get_type_multi_access burst_size),
      (''event_same_type_multi'', event_same_type_multi_access burst_size),
      (''event_set_type'', event_set_type_access),
      (''event_get_pool'', event_get_pool_access),
      (''event_vector_tbl'', event_vector_access),
      (''event_vector_size'', event_vector_access),
      (''event_vector_max_size'', event_vector_access),
      (''event_vector_size_set'', event_vector_access),
      (''event_vector_info'', event_vector_access),
      (''core_id'', core_access),
      (''core_count'', core_access),
      (''odp_event2odp'', odp_event2odp_access),
      (''odp_events2odp'', odp_events2odp_access burst_size),
      (''odp_event2em'', odp_event2em_access),
      (''odp_events2em'', odp_events2em_access burst_size)]"

definition init_functions ::
  "('p \<Rightarrow> int \<Rightarrow> int \<times> 'p) \<Rightarrow> 'p \<Rightarrow> int \<Rightarrow> (string \<times> access list) list"
where
  "init_functions em_alloc_multi pool burst_size =
     [(''create_sw_events'', create_sw_events_access em_alloc_multi pool),
      (''create_packets'', create_packets_access em_alloc_multi pool),
      (''create_vectors'', create_vectors_access em_alloc_multi pool),
      (''create_sw_events_multi'', create_sw_events_multi_access em_alloc_multi pool burst_size),
      (''create_packets_multi'', create_packets_multi_access em_alloc_multi pool burst_size),
      (''create_vectors_multi'', create_vectors_multi_access em_alloc_multi pool burst_size),
      (''create_ext_packets'', create_ext_packets_access),
      (''create_send_unsched_sw_events'',
         create_send_unsched_sw_events_access em_alloc_multi pool),
      (''create_send_unsched_sw_events_multi'',
         create_send_unsched_sw_events_multi_access em_alloc_multi pool burst_size)]"

definition term_functions :: "int \<Rightarrow> (string \<times> access list) list" where
  "term_functions burst_size =
     [(''free_events'', free_events_access),
      (''free_events_multi'', free_events_multi_access burst_size),
      (''free_vectors'', free_vectors_access),
      (''free_clone_events'', free_clone_events_access),
      (''unsched_dequeue_free'', unsched_dequeue_free_access),
      (''unsched_dequeue_free_multi'', unsched_dequeue_free_multi_access burst_size)]"

text \<open>An access list stays below a bound: every index is at least 0 and less than the bound.\<close>

definition below :: "int \<Rightarrow> access list \<Rightarrow> bool" where
  "below n acc = list_all (\<lambda>a. 0 \<le> snd a \<and> snd a < n) acc"

section \<open>Releasing and allocating the test events\<close>

subsection \<open>free\_event\_tbl\<close>

lemma free_loop_char:
  "i \<le> n \<Longrightarrow> n \<le> length tbl \<Longrightarrow> num = int n \<Longrightarrow>
   free_event_tbl_loop tbl num i fr =
     Some (take i tbl @ replicate (n - i) EM_EVENT_UNDEF @ drop n tbl,
           fr @ filter (\<lambda>e. e \<noteq> EM_EVENT_UNDEF) (take (n - i) (drop i tbl)))"
proof (induction "n - i" arbitrary: i tbl fr)
  case 0
  then show ?case by (simp add: free_event_tbl_loop.simps)
next
  case (Suc d)
  then have lt: "i < n" and d: "d = n - Suc i" by auto
  have il: "i < length tbl" using lt Suc.prems by simp
  have dr: "take (n - i) (drop i tbl) = tbl ! i # take (n - Suc i) (drop (Suc i) tbl)"
    using lt il by (metis Cons_nth_drop_Suc Suc_diff_Suc take_Suc_Cons)
  have rp: "replicate (n - i) EM_EVENT_UNDEF = EM_EVENT_UNDEF # replicate (n - Suc i) EM_EVENT_UNDEF"
    using lt by (metis Suc_diff_Suc replicate_Suc)
  show ?case
  proof (cases "tbl ! i = EM_EVENT_UNDEF")
    case True
    have "free_event_tbl_loop tbl num i fr = free_event_tbl_loop tbl num (Suc i) fr"
      using lt il True Suc.prems by (subst free_event_tbl_loop.simps) simp
    also have "\<dots> = Some (take (Suc i) tbl @ replicate (n - Suc i) EM_EVENT_UNDEF @ drop n tbl,
           fr @ filter (\<lambda>e. e \<noteq> EM_EVENT_UNDEF) (take (n - Suc i) (drop (Suc i) tbl)))"
      using Suc.hyps(1)[of "Suc i" tbl fr] d lt Suc.prems by simp
    finally show ?thesis
      using True il by (simp add: dr rp take_Suc_conv_app_nth)
  next
    case False
    have "free_event_tbl_loop tbl num i fr =
          free_event_tbl_loop (tbl[i := EM_EVENT_UNDEF]) num (Suc i) (fr @ [tbl ! i])"
      using lt il False Suc.prems by (subst free_event_tbl_loop.simps) simp
    also have "\<dots> = Some (take (Suc i) (tbl[i := EM_EVENT_UNDEF]) @ replicate (n - Suc i) EM_EVENT_UNDEF
                 @ drop n (tbl[i := EM_EVENT_UNDEF]),
           (fr @ [tbl ! i]) @ filter (\<lambda>e. e \<noteq> EM_EVENT_UNDEF)
              (take (n - Suc i) (drop (Suc i) (tbl[i := EM_EVENT_UNDEF]))))"
      using Suc.hyps(1)[of "Suc i" "tbl[i := EM_EVENT_UNDEF]" "fr @ [tbl ! i]"] d lt Suc.prems by simp
    finally show ?thesis
      using False il lt by (simp add: dr rp take_Suc_conv_app_nth)
  qed
qed

lemma free_loop_nonpos:
  "num \<le> int i \<Longrightarrow> free_event_tbl_loop tbl num i fr = Some (tbl, fr)"
  by (subst free_event_tbl_loop.simps) simp

lemma free_event_tbl_closed:
  assumes "num \<le> int (length tbl)"
  shows "free_event_tbl tbl num fr =
     Some (replicate (nat num) EM_EVENT_UNDEF @ drop (nat num) tbl,
           fr @ filter (\<lambda>e. e \<noteq> EM_EVENT_UNDEF) (take (nat num) tbl))"
proof (cases "num \<le> 0")
  case True
  then show ?thesis by (simp add: free_event_tbl_def free_loop_nonpos)
next
  case False
  then have "num = int (nat num)" by simp
  from free_loop_char[OF _ _ this, of 0 tbl fr] assms show ?thesis
    by (simp add: free_event_tbl_def)
qed

text \<open>
  Claim C8. Releasing the first \<open>num\<close> entries of a table hands every valid one of them
  to \<open>em_free\<close>, in order, and sets it to \<open>EM_EVENT_UNDEF\<close>; an entry that is already
  \<open>EM_EVENT_UNDEF\<close> is neither freed nor changed, and the entries from \<open>num\<close> on are kept.
  Releasing the same table again frees nothing and leaves the same table: the second
  release ends in the state the first one ended in.
\<close>

theorem free_event_tbl_idempotent:
  assumes "num \<le> int (length event_tbl)"
  shows "\<exists>tbl' freed'.
      free_event_tbl event_tbl num freed = Some (tbl', freed') \<and>
      length tbl' = length event_tbl \<and>
      (\<forall>i<length event_tbl. tbl' ! i = (if int i < num then EM_EVENT_UNDEF else event_tbl ! i)) \<and>
      freed' = freed @ filter (\<lambda>e. e \<noteq> EM_EVENT_UNDEF) (take (nat num) event_tbl) \<and>
      free_event_tbl tbl' num freed' = Some (tbl', freed')"
proof -
  let ?n = "nat num"
  let ?t = "replicate ?n EM_EVENT_UNDEF @ drop ?n event_tbl"
  let ?f = "freed @ filter (\<lambda>e. e \<noteq> EM_EVENT_UNDEF) (take ?n event_tbl)"
  have n: "?n \<le> length event_tbl" using assms by simp
  have first: "free_event_tbl event_tbl num freed = Some (?t, ?f)"
    by (rule free_event_tbl_closed[OF assms])
  have len: "length ?t = length event_tbl" using n by simp
  have nth: "\<forall>i<length event_tbl. ?t ! i = (if int i < num then EM_EVENT_UNDEF else event_tbl ! i)"
    using n by (auto simp: nth_append)
  have "num \<le> int (length ?t)" using assms len by simp
  from free_event_tbl_closed[OF this, of ?f]
  have second: "free_event_tbl ?t num ?f = Some (?t, ?f)" by simp
  show ?thesis using first len nth second by blast
qed

theorem free_event_tbl_idempotent_witness:
  "(3::int) \<le> int (length [Event 7, EM_EVENT_UNDEF, Event 8, Event 9]) \<and>
   free_event_tbl [Event 7, EM_EVENT_UNDEF, Event 8, Event 9] 3 [] =
     Some ([EM_EVENT_UNDEF, EM_EVENT_UNDEF, EM_EVENT_UNDEF, Event 9], [Event 7, Event 8]) \<and>
   free_event_tbl [EM_EVENT_UNDEF, EM_EVENT_UNDEF, EM_EVENT_UNDEF, Event 9] 3 [Event 7, Event 8] =
     Some ([EM_EVENT_UNDEF, EM_EVENT_UNDEF, EM_EVENT_UNDEF, Event 9], [Event 7, Event 8])"
proof -
  have h: "(3::int) \<le> int (length [Event 7, EM_EVENT_UNDEF, Event 8, Event 9])" by simp
  from free_event_tbl_idempotent[OF h, of "[]"] obtain tbl' freed' where
    r: "free_event_tbl [Event 7, EM_EVENT_UNDEF, Event 8, Event 9] 3 [] = Some (tbl', freed')"
    and l: "length tbl' = length [Event 7, EM_EVENT_UNDEF, Event 8, Event 9]"
    and n: "\<forall>i<length [Event 7, EM_EVENT_UNDEF, Event 8, Event 9].
             tbl' ! i = (if int i < 3 then EM_EVENT_UNDEF
                         else [Event 7, EM_EVENT_UNDEF, Event 8, Event 9] ! i)"
    and f: "freed' = [] @ filter (\<lambda>e. e \<noteq> EM_EVENT_UNDEF)
                      (take (nat 3) [Event 7, EM_EVENT_UNDEF, Event 8, Event 9])"
    and i: "free_event_tbl tbl' 3 freed' = Some (tbl', freed')"
    by blast
  have f': "freed' = [Event 7, Event 8]" using f by (simp add: numeral_3_eq_3)
  have "tbl' = [EM_EVENT_UNDEF, EM_EVENT_UNDEF, EM_EVENT_UNDEF, Event 9]"
  proof (rule nth_equalityI)
    show "length tbl' = length [EM_EVENT_UNDEF, EM_EVENT_UNDEF, EM_EVENT_UNDEF, Event 9]"
      using l by simp
  next
    fix i assume "i < length tbl'"
    then have "i < 4" using l by simp
    then consider "i = 0" | "i = 1" | "i = 2" | "i = 3" by linarith
    then show "tbl' ! i = [EM_EVENT_UNDEF, EM_EVENT_UNDEF, EM_EVENT_UNDEF, Event 9] ! i"
      using n by cases simp_all
  qed
  with r i f' h show ?thesis by simp
qed

subsection \<open>allocate\_test\_events\<close>

lemma alloc_loop_ones:
  assumes one: "\<And>p n. fst (f p n) = 1"
  shows "is_Alloc_done (allocate_test_events_loop f num ne nr calls p) \<and>
         alloc_calls (allocate_test_events_loop f num ne nr calls p) =
           calls @ map (\<lambda>k. (k, num - k)) [ne..num - 1]"
proof (induction "nat (num - ne)" arbitrary: ne nr calls p)
  case 0
  then show ?case by (simp add: allocate_test_events_loop.simps)
next
  case (Suc d)
  then have lt: "ne < num" by linarith
  obtain p' where f: "f p (num - ne) = (1, p')" using one[of p "num - ne"] by (cases "f p (num - ne)") auto
  have step: "allocate_test_events_loop f num ne nr calls p =
        allocate_test_events_loop f num (ne + 1) 0 (calls @ [(ne, num - ne)]) p'"
    using lt f by (subst allocate_test_events_loop.simps) simp
  have "d = nat (num - (ne + 1))" using Suc(2) by linarith
  from Suc(1)[OF this, of 0 "calls @ [(ne, num - ne)]" p'] 
  show ?case using lt by (simp add: step upto_rec1[of ne "num - 1"])
qed

text \<open>When every call returns 0, each call is a retry, up to the ceiling.\<close>

lemma alloc_loop_zeros:
  assumes z: "\<And>p n. fst (f p n) = 0" and lt: "ne < num" and nr: "0 \<le> nr" "nr \<le> MAX_RETRY"
  shows "\<not> is_Alloc_done (allocate_test_events_loop f num ne nr calls p) \<and>
         alloc_calls (allocate_test_events_loop f num ne nr calls p) =
           calls @ replicate (nat (MAX_RETRY + 1 - nr)) (ne, num - ne)"
  using nr
proof (induction "nat (MAX_RETRY - nr)" arbitrary: nr calls p)
  case 0
  then have e: "nr = MAX_RETRY" by simp
  obtain p' where f: "f p (num - ne) = (0, p')" using z[of p "num - ne"] by (cases "f p (num - ne)") auto
  show ?case using lt f e by (subst (1 2) allocate_test_events_loop.simps) (simp add: MAX_RETRY_def)
next
  case (Suc d)
  then have l: "nr < MAX_RETRY" by linarith
  obtain p' where f: "f p (num - ne) = (0, p')" using z[of p "num - ne"] by (cases "f p (num - ne)") auto
  have step: "allocate_test_events_loop f num ne nr calls p =
        allocate_test_events_loop f num ne (nr + 1) (calls @ [(ne, num - ne)]) p'"
    using lt f l by (subst allocate_test_events_loop.simps) simp
  have d: "d = nat (MAX_RETRY - (nr + 1))" using Suc(2) by linarith
  have "nat (MAX_RETRY + 1 - nr) = Suc (nat (MAX_RETRY + 1 - (nr + 1)))"
    using l by arith
  then have r: "replicate (nat (MAX_RETRY + 1 - nr)) (ne, num - ne) =
           (ne, num - ne) # replicate (nat (MAX_RETRY + 1 - (nr + 1))) (ne, num - ne)"
    by simp
  from Suc(1)[OF d, of "calls @ [(ne, num - ne)]" p'] Suc.prems l
  show ?case by (simp add: step r)
qed

lemma allocate_ones:
  assumes "\<And>p n. fst (f p n) = 1"
  shows "is_Alloc_done (allocate_test_events f num pool) \<and>
         alloc_calls (allocate_test_events f num pool) = map (\<lambda>k. (k, num - k)) [0..num - 1]"
  using alloc_loop_ones[of f num 0 0 "[]" pool, OF assms] by (simp add: allocate_test_events_def)

lemma allocate_zeros:
  assumes "\<And>p n. fst (f p n) = 0" "0 < num"
  shows "\<not> is_Alloc_done (allocate_test_events f num pool) \<and>
         alloc_calls (allocate_test_events f num pool) = replicate (nat (MAX_RETRY + 1)) (0, num)"
  using alloc_loop_zeros[of f 0 num 0 "[]" pool, OF assms(1)] assms(2)
  by (simp add: allocate_test_events_def MAX_RETRY_def)

text \<open>Recording the return values.\<close>

lemma empty_run_Nil [simp]: "empty_run [] = 0"
  by (simp add: empty_run_def)

lemma empty_run_snoc [simp]:
  "empty_run (rets @ [ret]) = (if ret < 1 then Suc (empty_run rets) else 0)"
  by (simp add: empty_run_def)

lemma logging_step:
  "f p n = (ret, p') \<Longrightarrow> logging f (p, log) n = (ret, (p', log @ [ret]))"
  by (simp add: logging_def)

text \<open>The log changes nothing of what the loop does.\<close>

lemma logging_loop:
  "is_Alloc_done (allocate_test_events_loop (logging f) num ne nr calls (p, log)) =
     is_Alloc_done (allocate_test_events_loop f num ne nr calls p) \<and>
   alloc_calls (allocate_test_events_loop (logging f) num ne nr calls (p, log)) =
     alloc_calls (allocate_test_events_loop f num ne nr calls p) \<and>
   fst (alloc_pool (allocate_test_events_loop (logging f) num ne nr calls (p, log))) =
     alloc_pool (allocate_test_events_loop f num ne nr calls p)"
proof (induction f num ne nr calls p arbitrary: log rule: allocate_test_events_loop.induct)
  case (1 f num ne nr calls p)
  show ?case
  proof (cases "ne < num")
    case False
    then show ?thesis by (subst (1 2 3 4 5 6) allocate_test_events_loop.simps) simp
  next
    case True
    obtain ret p' where r: "f p (num - ne) = (ret, p')" by (cases "f p (num - ne)")
    note l = logging_step[of f p "num - ne" ret p' log, OF r]
    let ?calls = "calls @ [(ne, num - ne)]"
    show ?thesis
    proof (cases "ret < 1")
      case lt: True
      show ?thesis
      proof (cases "ret < 0 \<or> nr + 1 > MAX_RETRY")
        case True
        then show ?thesis using \<open>ne < num\<close> r l lt
          by (subst (1 2 3 4 5 6) allocate_test_events_loop.simps) auto
      next
        case False
        have a: "allocate_test_events_loop f num ne nr calls p =
              allocate_test_events_loop f num ne (nr + 1) ?calls p'"
          using \<open>ne < num\<close> r lt False by (subst allocate_test_events_loop.simps) simp
        have b: "allocate_test_events_loop (logging f) num ne nr calls (p, log) =
              allocate_test_events_loop (logging f) num ne (nr + 1) ?calls (p', log @ [ret])"
          using \<open>ne < num\<close> l lt False by (subst allocate_test_events_loop.simps) simp
        show ?thesis
          unfolding a b
          using "1.IH"(1)[OF \<open>ne < num\<close> r[symmetric] refl refl lt False, of "log @ [ret]"] .
      qed
    next
      case ge: False
      have a: "allocate_test_events_loop f num ne nr calls p =
            allocate_test_events_loop f num (ne + ret) 0 ?calls p'"
        using \<open>ne < num\<close> r ge by (subst allocate_test_events_loop.simps) simp
      have b: "allocate_test_events_loop (logging f) num ne nr calls (p, log) =
            allocate_test_events_loop (logging f) num (ne + ret) 0 ?calls (p', log @ [ret])"
        using \<open>ne < num\<close> l ge by (subst allocate_test_events_loop.simps) simp
      show ?thesis
        unfolding a b
        using "1.IH"(2)[OF \<open>ne < num\<close> r[symmetric] refl refl ge, of "log @ [ret]"] .
    qed
  qed
qed

text \<open>
  The loop keeps \<open>alloc_inv\<close>, and \<open>alloc_inv\<close> at the end of the loop, or at the abort,
  gives \<open>alloc_final\<close>.
\<close>

lemma alloc_inv_snoc:
  assumes "alloc_inv num ne nr calls rets" "ne < num" "0 \<le> ret"
    and "ret < 1 \<longrightarrow> nr + 1 \<le> 1024"
  shows "alloc_inv num (ne + ret) (if ret < 1 then nr + 1 else 0) (calls @ [(ne, num - ne)])
           (rets @ [ret])"
  using assms unfolding alloc_inv_def
  by (auto simp: nth_append less_Suc_eq)

lemma alloc_inv_done:
  assumes "alloc_inv num ne nr calls rets" "\<not> ne < num"
  shows "alloc_final num True calls rets"
proof -
  have "rets \<noteq> [] \<Longrightarrow> 0 \<le> last rets"
    using assms(1) unfolding alloc_inv_def by (auto simp: last_conv_nth)
  moreover have "empty_run rets \<noteq> 1025" using assms(1) unfolding alloc_inv_def by simp
  ultimately show ?thesis
    using assms unfolding alloc_inv_def alloc_final_def by auto
qed

lemma alloc_inv_abort:
  assumes "alloc_inv num ne nr calls rets" "ne < num" "ret < 1" "ret < 0 \<or> nr + 1 > 1024"
  shows "alloc_final num False (calls @ [(ne, num - ne)]) (rets @ [ret])"
  using assms unfolding alloc_inv_def alloc_final_def
  by (auto simp: nth_append less_Suc_eq)

lemma alloc_loop_final:
  assumes "alloc_inv num ne nr calls log"
  shows "alloc_final num
           (is_Alloc_done (allocate_test_events_loop (logging f) num ne nr calls (p, log)))
           (alloc_calls (allocate_test_events_loop (logging f) num ne nr calls (p, log)))
           (snd (alloc_pool (allocate_test_events_loop (logging f) num ne nr calls (p, log))))"
  using assms
proof (induction "logging f" num ne nr calls "(p, log)" arbitrary: p log
       rule: allocate_test_events_loop.induct)
  case (1 num ne nr calls)
  show ?case
  proof (cases "ne < num")
    case False
    then show ?thesis using alloc_inv_done[OF "1.prems" False]
      by (subst (1 2 3) allocate_test_events_loop.simps) simp
  next
    case True
    obtain ret p' where r: "f p (num - ne) = (ret, p')" by (cases "f p (num - ne)")
    note l = logging_step[of f p "num - ne" ret p' log, OF r]
    let ?calls = "calls @ [(ne, num - ne)]"
    show ?thesis
    proof (cases "ret < 1")
      case lt: True
      show ?thesis
      proof (cases "ret < 0 \<or> nr + 1 > MAX_RETRY")
        case True
        then have "ret < 0 \<or> nr + 1 > 1024" by (simp add: MAX_RETRY_def)
        from alloc_inv_abort[OF "1.prems" \<open>ne < num\<close> lt this]
        show ?thesis using True \<open>ne < num\<close> l lt
          by (subst (1 2 3) allocate_test_events_loop.simps) simp
      next
        case False
        have b: "allocate_test_events_loop (logging f) num ne nr calls (p, log) =
              allocate_test_events_loop (logging f) num ne (nr + 1) ?calls (p', log @ [ret])"
          using \<open>ne < num\<close> l lt False by (subst allocate_test_events_loop.simps) simp
        have z: "ret = 0" using lt False by simp
        have "alloc_inv num (ne + ret) (if ret < 1 then nr + 1 else 0) ?calls (log @ [ret])"
          using False by (intro alloc_inv_snoc[OF "1.prems" \<open>ne < num\<close>]) (simp_all add: MAX_RETRY_def)
        then have i: "alloc_inv num ne (nr + 1) ?calls (log @ [ret])" using z by simp
        show ?thesis
          unfolding b
          using "1.hyps"(1)[OF \<open>ne < num\<close> refl l[symmetric] refl lt False i] .
      qed
    next
      case ge: False
      have b: "allocate_test_events_loop (logging f) num ne nr calls (p, log) =
            allocate_test_events_loop (logging f) num (ne + ret) 0 ?calls (p', log @ [ret])"
        using \<open>ne < num\<close> l ge by (subst allocate_test_events_loop.simps) simp
      have "alloc_inv num (ne + ret) (if ret < 1 then nr + 1 else 0) ?calls (log @ [ret])"
        using ge by (intro alloc_inv_snoc[OF "1.prems" \<open>ne < num\<close>]) simp_all
      then have i: "alloc_inv num (ne + ret) 0 ?calls (log @ [ret])" using ge by simp
      show ?thesis
        unfolding b
        using "1.hyps"(2)[OF \<open>ne < num\<close> refl l[symmetric] refl ge i] .
    qed
  qed
qed


text \<open>The function as a whole, with the return values it was given.\<close>

lemma logging_transparent:
  "is_Alloc_done (allocate_test_events (logging f) num (pool, [])) =
     is_Alloc_done (allocate_test_events f num pool) \<and>
   alloc_calls (allocate_test_events (logging f) num (pool, [])) =
     alloc_calls (allocate_test_events f num pool) \<and>
   fst (alloc_pool (allocate_test_events (logging f) num (pool, []))) =
     alloc_pool (allocate_test_events f num pool)"
  unfolding allocate_test_events_def by (rule logging_loop)

lemma allocate_final:
  "alloc_final num (is_Alloc_done (allocate_test_events f num pool))
     (alloc_calls (allocate_test_events f num pool)) (alloc_rets f num pool)"
proof -
  have "alloc_inv num 0 0 [] []" by (simp add: alloc_inv_def)
  from alloc_loop_final[OF this, of f pool]
  show ?thesis
    using logging_transparent[of f num pool]
    by (simp add: allocate_test_events_def alloc_rets_def)
qed

text \<open>
  A call that returns at least one event sets \<open>num_retries\<close> to 0: what the loop does
  from there on does not depend on the retries counted before.
\<close>

lemma successful_call_resets:
  assumes "ne < num" "1 \<le> fst (f p (num - ne))"
  shows "allocate_test_events_loop f num ne nr calls p =
         allocate_test_events_loop f num ne 0 calls p"
proof -
  obtain ret p' where r: "f p (num - ne) = (ret, p')" by (cases "f p (num - ne)")
  then have "\<not> ret < 1" using assms(2) by simp
  then show ?thesis using assms(1) r
    by (subst (1 2) allocate_test_events_loop.simps) simp
qed

text \<open>
  Entered with 1023 retries counted, the loop is given 0, 1, 0 and 1 event: it counts
  retry 1024, starts again from 0 after the first event, and completes the request.
\<close>

lemma num_retries_reset_example:
  "allocate_test_events_loop alloc_script 2 0 1023 [] [0, 1, 0, 1] =
     Alloc_done [(0, 2), (0, 2), (1, 1), (1, 1)] []"
  by code_simp

text \<open>
  Claim C2 says that a request for 5000 events, served one event per call, is aborted
  after 1024 calls. The loop resets \<open>num_retries\<close> after every call that returns at least
  one event, so this request is completed by 5000 calls and never aborted.
\<close>

theorem allocate_test_events_single_returns_counterexample:
  "is_Alloc_done (allocate_test_events (alloc_always 1) 5000 ()) \<and>
   length (alloc_calls (allocate_test_events (alloc_always 1) 5000 ())) = 5000"
  using allocate_ones[of "alloc_always 1" 5000 "()"]
  by (simp add: alloc_always_def)

text \<open>
  Claim C2, amended. Let \<open>rets\<close> be the return values of the calls of \<open>em_alloc_multi\<close>
  that \<open>allocate_test_events\<close> makes for a request of \<open>num\<close> events, whatever the
  allocator. There are as many calls as return values; call \<open>k\<close> is made at the offset that
  is the sum of the return values before it and asks for the events still missing, and it
  is made only while that sum is below \<open>num\<close>. The request is completed exactly when the
  return values add up to at least \<open>num\<close>. It is aborted exactly at a call that returns a
  negative value or is the \<open>MAX_RETRY + 1\<close>-th call in a row to return no event, and no
  call before the last did either: every call that returns at least one event sets
  \<open>num_retries\<close> back to 0, so that the loop goes on from it as if no retry had been
  counted, and only empty returns in a row count against the ceiling. In particular a
  request for \<open>num > 0\<close> events served exactly one event per call is completed after
  exactly \<open>num\<close> calls, and when every call returns 0 the request is aborted at call
  number 1025.
\<close>

theorem allocate_test_events_retry_ceiling:
  assumes res: "res = allocate_test_events em_alloc_multi num pool"
    and rets: "rets = alloc_rets em_alloc_multi num pool"
  shows "length (alloc_calls res) = length rets \<and>
         (\<forall>k<length rets.
            alloc_calls res ! k = (sum_list (take k rets), num - sum_list (take k rets)) \<and>
            sum_list (take k rets) < num) \<and>
         (\<forall>k. Suc k < length rets \<longrightarrow>
            0 \<le> rets ! k \<and> int (empty_run (take (Suc k) rets)) \<le> MAX_RETRY) \<and>
         (is_Alloc_done res \<longleftrightarrow> num \<le> sum_list rets) \<and>
         (\<not> is_Alloc_done res \<longleftrightarrow>
            rets \<noteq> [] \<and> (last rets < 0 \<or> int (empty_run rets) = MAX_RETRY + 1)) \<and>
         (\<forall>num_events num_retries calls p.
            num_events < num \<and> 1 \<le> fst (em_alloc_multi p (num - num_events)) \<longrightarrow>
            allocate_test_events_loop em_alloc_multi num num_events num_retries calls p =
            allocate_test_events_loop em_alloc_multi num num_events 0 calls p) \<and>
         (0 < num \<and> (\<forall>p n. fst (em_alloc_multi p n) = 1) \<longrightarrow>
            is_Alloc_done res \<and>
            alloc_calls res = map (\<lambda>k. (k, num - k)) [0..num - 1] \<and>
            length (alloc_calls res) = nat num) \<and>
         (0 < num \<and> (\<forall>p n. fst (em_alloc_multi p n) = 0) \<longrightarrow>
            \<not> is_Alloc_done res \<and>
            alloc_calls res = replicate (nat (MAX_RETRY + 1)) (0, num))"
proof -
  have f: "alloc_final num (is_Alloc_done res) (alloc_calls res) rets"
    unfolding res rets by (rule allocate_final)
  have a: "length (alloc_calls res) = length rets"
    using f unfolding alloc_final_def by blast
  have b: "\<forall>k<length rets.
            alloc_calls res ! k = (sum_list (take k rets), num - sum_list (take k rets)) \<and>
            sum_list (take k rets) < num"
    using f unfolding alloc_final_def by blast
  have c: "\<forall>k. Suc k < length rets \<longrightarrow>
            0 \<le> rets ! k \<and> int (empty_run (take (Suc k) rets)) \<le> MAX_RETRY"
    using f unfolding alloc_final_def MAX_RETRY_def by simp
  have d: "is_Alloc_done res \<longleftrightarrow> num \<le> sum_list rets"
    using f unfolding alloc_final_def by blast
  have e: "\<not> is_Alloc_done res \<longleftrightarrow>
            rets \<noteq> [] \<and> (last rets < 0 \<or> int (empty_run rets) = MAX_RETRY + 1)"
  proof -
    have "int (empty_run rets) = MAX_RETRY + 1 \<longleftrightarrow> empty_run rets = 1025"
      unfolding MAX_RETRY_def by linarith
    moreover have "\<not> is_Alloc_done res \<longleftrightarrow>
            rets \<noteq> [] \<and> (last rets < 0 \<or> empty_run rets = 1025)"
      using f unfolding alloc_final_def by blast
    ultimately show ?thesis by blast
  qed
  have g: "\<forall>num_events num_retries calls p.
            num_events < num \<and> 1 \<le> fst (em_alloc_multi p (num - num_events)) \<longrightarrow>
            allocate_test_events_loop em_alloc_multi num num_events num_retries calls p =
            allocate_test_events_loop em_alloc_multi num num_events 0 calls p"
    using successful_call_resets[of _ num em_alloc_multi] by blast
  have h: "0 < num \<and> (\<forall>p n. fst (em_alloc_multi p n) = 1) \<longrightarrow>
            is_Alloc_done res \<and>
            alloc_calls res = map (\<lambda>k. (k, num - k)) [0..num - 1] \<and>
            length (alloc_calls res) = nat num"
    unfolding res using allocate_ones[of em_alloc_multi num pool] by simp
  have i: "0 < num \<and> (\<forall>p n. fst (em_alloc_multi p n) = 0) \<longrightarrow>
            \<not> is_Alloc_done res \<and>
            alloc_calls res = replicate (nat (MAX_RETRY + 1)) (0, num)"
    unfolding res using allocate_zeros[of em_alloc_multi num pool] by simp
  from a b c d e g h i show ?thesis by blast
qed

theorem allocate_test_events_retry_ceiling_witness:
  "alloc_rets alloc_script 3 [0, 0, 1, 0, 2] = [0, 0, 1, 0, 2] \<and>
   is_Alloc_done (allocate_test_events alloc_script 3 [0, 0, 1, 0, 2]) \<and>
   (3::int) \<le> sum_list [0, 0, 1, 0, 2] \<and>
   length (alloc_calls (allocate_test_events alloc_script 3 [0, 0, 1, 0, 2])) = 5 \<and>
   allocate_test_events_loop alloc_script 3 1 1024 [] [2] =
     allocate_test_events_loop alloc_script 3 1 0 [] [2] \<and>
   (0::int) < 5000 \<and>
   is_Alloc_done (allocate_test_events (alloc_always 1) 5000 ()) \<and>
   length (alloc_calls (allocate_test_events (alloc_always 1) 5000 ())) = 5000 \<and>
   \<not> is_Alloc_done (allocate_test_events (alloc_always 0) 5000 ()) \<and>
   alloc_calls (allocate_test_events (alloc_always 0) 5000 ()) = replicate 1025 (0, 5000)"
proof -
  note t = allocate_test_events_retry_ceiling[OF refl refl]
  note s = t[of alloc_script 3 "[0, 0, 1, 0, 2]"]
  have r: "alloc_rets alloc_script 3 [0, 0, 1, 0, 2] = [0, 0, 1, 0, 2]" by code_simp
  have "length (alloc_calls (allocate_test_events alloc_script 3 [0, 0, 1, 0, 2])) =
          length (alloc_rets alloc_script 3 [0, 0, 1, 0, 2])"
    using s by blast
  then have 1: "length (alloc_calls (allocate_test_events alloc_script 3 [0, 0, 1, 0, 2])) = 5"
    unfolding r by simp
  have "is_Alloc_done (allocate_test_events alloc_script 3 [0, 0, 1, 0, 2]) \<longleftrightarrow>
          3 \<le> sum_list (alloc_rets alloc_script 3 [0, 0, 1, 0, 2])"
    using s by blast
  then have 2: "is_Alloc_done (allocate_test_events alloc_script 3 [0, 0, 1, 0, 2])"
    unfolding r by simp
  have "\<forall>num_events num_retries calls p.
          num_events < 3 \<and> 1 \<le> fst (alloc_script p (3 - num_events)) \<longrightarrow>
          allocate_test_events_loop alloc_script 3 num_events num_retries calls p =
          allocate_test_events_loop alloc_script 3 num_events 0 calls p"
    using s by blast
  then have "(1::int) < 3 \<and> 1 \<le> fst (alloc_script [2] (3 - 1)) \<longrightarrow>
          allocate_test_events_loop alloc_script 3 1 1024 [] [2] =
          allocate_test_events_loop alloc_script 3 1 0 [] [2]"
    by blast
  then have 3: "allocate_test_events_loop alloc_script 3 1 1024 [] [2] =
          allocate_test_events_loop alloc_script 3 1 0 [] [2]"
    by simp
  have "0 < (5000::int) \<and> (\<forall>(p::unit) n. fst (alloc_always 1 p n) = (1::int)) \<longrightarrow>
          is_Alloc_done (allocate_test_events (alloc_always 1) 5000 ()) \<and>
          alloc_calls (allocate_test_events (alloc_always 1) 5000 ()) =
            map (\<lambda>k. (k, 5000 - k)) [0..5000 - 1] \<and>
          length (alloc_calls (allocate_test_events (alloc_always 1) 5000 ())) = nat 5000"
    using t[of "alloc_always 1" 5000 "()"] by blast
  then have 4: "is_Alloc_done (allocate_test_events (alloc_always 1) 5000 ()) \<and>
          length (alloc_calls (allocate_test_events (alloc_always 1) 5000 ())) = 5000"
    by (simp add: alloc_always_def)
  have "0 < (5000::int) \<and> (\<forall>(p::unit) n. fst (alloc_always 0 p n) = (0::int)) \<longrightarrow>
          \<not> is_Alloc_done (allocate_test_events (alloc_always 0) 5000 ()) \<and>
          alloc_calls (allocate_test_events (alloc_always 0) 5000 ()) =
            replicate (nat (MAX_RETRY + 1)) (0, 5000)"
    using t[of "alloc_always 0" 5000 "()"] by blast
  then have 5: "\<not> is_Alloc_done (allocate_test_events (alloc_always 0) 5000 ()) \<and>
          alloc_calls (allocate_test_events (alloc_always 0) 5000 ()) = replicate 1025 (0, 5000)"
    by (simp add: alloc_always_def MAX_RETRY_def)
  from r 1 2 3 4 5 show ?thesis by simp
qed

section \<open>The indefinite mode\<close>

lemma indef_step_clear:
  assumes "exit_thread E (fst s) = 0" "bench_ret b idx s \<noteq> 0"
  shows "run_indef_loop E b idx s = run_indef_loop E b idx (bench_cycle b idx s)"
  using assms
  by (subst run_indef_loop.simps) (auto simp: bench_ret_def bench_cycle_def Let_def split: prod.splits)

lemma indef_step_set:
  assumes "exit_thread E (fst s) \<noteq> 0"
  shows "run_indef_loop E b idx s = Some (Indef_return (fst s) (snd s))"
  using assms by (subst run_indef_loop.simps) simp

lemma indef_after_k:
  assumes "\<forall>i<k. exit_thread E (fst ((bench_cycle b idx ^^ i) s)) = 0 \<and>
                  bench_ret b idx ((bench_cycle b idx ^^ i) s) \<noteq> 0"
    and "exit_thread E (fst ((bench_cycle b idx ^^ k) s)) \<noteq> 0"
  shows "run_indef_loop E b idx s =
           Some (Indef_return (fst ((bench_cycle b idx ^^ k) s)) (snd ((bench_cycle b idx ^^ k) s)))"
  using assms
proof (induction k arbitrary: s)
  case 0
  then show ?case by (simp add: indef_step_set)
next
  case (Suc k)
  from Suc.prems(1) have z: "exit_thread E (fst s) = 0" "bench_ret b idx s \<noteq> 0"
    by (metis funpow_0 zero_less_Suc)+
  have "\<forall>i<k. exit_thread E (fst ((bench_cycle b idx ^^ i) (bench_cycle b idx s))) = 0 \<and>
                  bench_ret b idx ((bench_cycle b idx ^^ i) (bench_cycle b idx s)) \<noteq> 0"
    using Suc.prems(1) by (metis Suc_less_eq funpow_Suc_right o_apply)
  moreover have "exit_thread E (fst ((bench_cycle b idx ^^ k) (bench_cycle b idx s))) \<noteq> 0"
    using Suc.prems(2) by (simp add: funpow_swap1)
  ultimately show ?case
    using Suc.IH[of "bench_cycle b idx s"] z by (simp add: indef_step_clear funpow_swap1)
qed






lemma concat_replicate_comm: "concat (replicate i xs) @ xs = xs @ concat (replicate i xs)"
  by (induction i) simp_all

lemma cycle_case_step:
  "bench_cycle (cycle_case nm r) idx (w, tr) =
     (Suc w, tr @ [Bench_init idx, Bench_run idx r, Bench_term idx])"
  by (simp add: bench_cycle_def call_init_def call_run_def call_term_def cycle_case_def)

lemma cycle_case_pow:
  "(bench_cycle (cycle_case nm r) idx ^^ i) (w, tr) =
     (w + i, tr @ concat (replicate i [Bench_init idx, Bench_run idx r, Bench_term idx]))"
proof (induction i)
  case 0
  show ?case by simp
next
  case (Suc i)
  show ?case
    using concat_replicate_comm[of i "[Bench_init idx, Bench_run idx r, Bench_term idx]"]
    by (simp add: Suc cycle_case_step)
qed


section \<open>The command line\<close>

lemma parse_opts_Inl: "parse_opts argv opts = Inl (r, tr) \<Longrightarrow> r \<noteq> 0"
proof (induction argv arbitrary: opts)
  case Nil
  then show ?case by simp
next
  case (Cons a argv)
  obtain c v where a: "a = (c, v)" by (cases a)
  show ?case using Cons.prems Cons.IH unfolding a parse_opts.simps
    by (simp split: if_splits)
qed

lemma parse_args_valid:
  assumes "parse_args argv n = Parse_return 0 opts tr0"
  shows "parse_opts argv default_opt = Inr opts" and "tr0 = []"
    and "1 \<le> opt_burst_size opts" and "opt_burst_size opts \<le> MAX_BURST"
    and "1 \<le> opt_rounds opts"
    and "0 \<le> opt_bench_idx opts" and "opt_bench_idx opts \<le> int n"
proof -
  show p: "parse_opts argv default_opt = Inr opts"
  proof (cases "parse_opts argv default_opt")
    case (Inl x)
    obtain r tr where "x = (r, tr)" by (cases x)
    with Inl assms parse_opts_Inl[of argv default_opt r tr] show ?thesis
      by (simp add: parse_args_def)
  next
    case (Inr o')
    with assms show ?thesis by (simp add: parse_args_def split: if_splits)
  qed
  from assms p show "tr0 = []" by (simp add: parse_args_def split: if_splits)
  from assms p show "1 \<le> opt_burst_size opts" by (simp add: parse_args_def split: if_splits)
  from assms p show "opt_burst_size opts \<le> MAX_BURST" by (simp add: parse_args_def split: if_splits)
  from assms p have "\<not> opt_rounds opts < 1" by (simp add: parse_args_def split: if_splits)
  then show "1 \<le> opt_rounds opts" by (simp only: not_less)
  from assms p show "0 \<le> opt_bench_idx opts" by (simp add: parse_args_def split: if_splits)
  from assms p show "opt_bench_idx opts \<le> int n" by (simp add: parse_args_def split: if_splits)
qed

lemma main_exit_ok:
  assumes "odp_shm_free_ok E" "odp_term_local_ok E" "odp_term_global_ok E"
  shows "main_exit E ret s = Exit (if ret < 0 then EXIT_FAILURE else EXIT_SUCCESS) (fst s) (snd s)"
  using assms by (simp add: main_exit_def)

lemma main_valid:
  assumes "startup_ok E" and "parse_args argv (length suite) = Parse_return 0 opts tr0"
  shows "main E argv suite w =
     (if \<not> create_queues_ok E
      then Some (main_exit E 0 (w, [Print_info, Odph_err ''EM unscheduled queue create failed'']))
      else (case run_benchmarks E \<lparr> opt = opts, bench = suite, bench_failed = 0 \<rparr> (w, [Print_info]) of
              None \<Rightarrow> None
            | Some (Thread_abort w' tr') \<Rightarrow> Some (Sigabrt w' tr')
            | Some (Thread_return r failed w' tr') \<Rightarrow> Some (main_exit E failed (w', tr'))))"
  using assms parse_args_valid(2)[OF assms(2)] by (simp add: main_def)

text \<open>
  Claim C7. When the options have been read to the end and leave a burst size below 1 or
  above 64, \<open>parse_args\<close> ends the process with \<open>exit(EXIT_FAILURE)\<close>: the exit
  status is not 0, the outside is untouched (no case has run), and the only output is the
  error message, so neither the header nor a result line is printed. This holds for every
  table of cases and every environment; when the start-up of \<open>main\<close> fails before
  \<open>parse_args\<close> is reached, the process also ends with \<open>EXIT_FAILURE\<close>.
\<close>

theorem invalid_burst_size_rejected:
  assumes "parse_opts argv default_opt = Inr opts"
    and "opt_burst_size opts < 1 \<or> 64 < opt_burst_size opts"
  shows "main E argv suite w =
           Some (Exit EXIT_FAILURE w
                  [Odph_err (if startup_ok E then ''Invalid burst size (max 64)'' else ''Init failed'')]) \<and>
         EXIT_FAILURE \<noteq> 0"
  using assms by (simp add: main_def parse_args_def MAX_BURST_def EXIT_FAILURE_def)

theorem invalid_burst_size_rejected_witness:
  "main (plain_env None) [(CHR ''b'', 0)] [tick_case ''a'' 1] 0 =
     Some (Exit 1 0 [Odph_err ''Invalid burst size (max 64)'']) \<and>
   main (plain_env None) [(CHR ''r'', 5), (CHR ''b'', 65)] [tick_case ''a'' 1] 0 =
     Some (Exit 1 0 [Odph_err ''Invalid burst size (max 64)''])"
proof -
  have a: "parse_opts [(CHR ''b'', 0)] default_opt = Inr (default_opt\<lparr>opt_burst_size := 0\<rparr>)"
    by simp
  have b: "parse_opts [(CHR ''r'', 5), (CHR ''b'', 65)] default_opt =
             Inr (default_opt\<lparr>opt_rounds := 5, opt_burst_size := 65\<rparr>)"
    by simp
  have s: "startup_ok (plain_env None)" by (simp add: plain_env_def)
  from invalid_burst_size_rejected[OF a, of "plain_env None" "[tick_case ''a'' 1]" 0]
       invalid_burst_size_rejected[OF b, of "plain_env None" "[tick_case ''a'' 1]" 0]
  show ?thesis using s by (simp add: EXIT_FAILURE_def)
qed

text \<open>
  An \<open>-h\<close> on the command line returns from \<open>parse_args\<close> inside the option loop,
  before the burst size is looked at: the usage text is printed and the exit status is 0.
\<close>

lemma help_returns_before_the_checks:
  "main (plain_env None) [(CHR ''b'', 0), (CHR ''h'', 0)] [tick_case ''a'' 1] 0 =
     Some (Exit 0 0 [Print_usage])"
  by code_simp

section \<open>The two passes of the normal mode\<close>

lemma result_lines_append: "result_lines (xs @ ys) = result_lines xs @ result_lines ys"
  by (induction xs rule: result_lines.induct) simp_all

text \<open>The body of the loop when no case index is selected and \<open>run\<close> succeeds.\<close>

lemma bench_body_success:
  assumes "opt_bench_idx (opt args) = 0" and "bench_ret (bench args ! j) j s \<noteq> 0"
  shows "bench_body E args i j rnd tot s =
     (let b = bench args ! j;
          s3 = bench_cycle b j s;
          tot' = tot + elapsed E (opt args) (stamp E (opt args) (fst (snd (call_run b j (call_init b j s)))))
                                            (stamp E (opt args) (fst (call_init b j s)))
      in if rnd \<ge> max_rounds_of (opt args) b
         then Next (j + 1) 1 0
                (fst s3, snd s3 @ (if i > 0 then [Print_result (int j + 1) (label_of b) tot'
                                                   (max_rounds_of (opt args) b * word_of_int REPEAT_COUNT)]
                                   else []))
         else Next j rnd tot' s3)"
  using assms
  by (auto simp: bench_body_def bench_ret_def bench_cycle_def Let_def split: prod.splits)

lemma bench_body_failure:
  assumes "opt_bench_idx (opt args) = 0" and "bench_ret (bench args ! j) j s = 0"
  shows "bench_body E args i j rnd tot s =
     (let b = bench args ! j; s2 = snd (call_run b j (call_init b j s))
      in Leave (Some (Goto_exit (- 1) (fst s2)
                  (snd s2 @ [Odph_err (''Benchmark '' @ desc_of b @ '' failed'')]))))"
  using assms
  by (auto simp: bench_body_def bench_ret_def Let_def split: prod.splits)

text \<open>
  What a turn of the loop adds to the trace: after a successful \<open>run\<close> no call that
  returned 0, and at a failed \<open>run\<close> that call last.
\<close>

lemma cycle_extends_ok:
  assumes "bench_ret b j s \<noteq> 0"
  shows "\<exists>c. snd (bench_cycle b j s) = snd s @ c \<and> (\<forall>k. Bench_run k 0 \<notin> set c)"
  using assms
  by (cases "bench_init b"; cases "bench_term b";
      cases "bench_run b (fst (call_init b j s))")
     (auto simp: bench_ret_def bench_cycle_def call_init_def call_run_def call_term_def Let_def)

lemma failed_run_trace:
  assumes "bench_ret b j s = 0"
  shows "\<exists>c. snd (snd (call_run b j (call_init b j s))) = snd s @ c @ [Bench_run j 0] \<and>
             (\<forall>k. Bench_run k 0 \<notin> set c)"
  using assms
  by (cases "bench_init b"; cases "bench_run b (fst (call_init b j s))")
     (auto simp: bench_ret_def call_init_def call_run_def Let_def)

lemma bench_loop_normal_trace:
  assumes "opt_bench_idx (opt args) = 0"
  shows "(\<exists>w ys. bench_loop E args i j rnd tot s = Some (Loop_end w (snd s @ ys)) \<and>
                  (\<forall>k. Bench_run k 0 \<notin> set ys)) \<or>
         (\<exists>w ys k msg. bench_loop E args i j rnd tot s =
                    Some (Goto_exit (- 1) w (snd s @ ys @ [Bench_run k 0, Odph_err msg])) \<and>
                  (\<forall>k. Bench_run k 0 \<notin> set ys))"
  using assms
proof (induction E args i j rnd tot s rule: bench_loop.induct)
  case (1 E args i j rnd tot s)
  let ?b = "bench args ! j"
  show ?case
  proof (cases "j < num_bench args \<and> exit_thread E (fst s) = 0")
    case False
    then have "bench_loop E args i j rnd tot s = Some (Loop_end (fst s) (snd s @ []))"
      by (subst bench_loop.simps) auto
    then show ?thesis by fastforce
  next
    case True
    show ?thesis
    proof (cases "bench_ret ?b j s = 0")
      case z: True
      from failed_run_trace[OF z] obtain c where
        c: "snd (snd (call_run ?b j (call_init ?b j s))) = snd s @ c @ [Bench_run j 0]"
        and nc: "\<forall>k. Bench_run k 0 \<notin> set c" by blast
      have "bench_loop E args i j rnd tot s =
              Some (Goto_exit (- 1) (fst (snd (call_run ?b j (call_init ?b j s))))
                 (snd s @ c @ [Bench_run j 0, Odph_err (''Benchmark '' @ desc_of ?b @ '' failed'')]))"
        using True c bench_body_failure[OF "1.prems" z, of E i rnd tot]
        by (subst bench_loop.simps) (simp add: Let_def)
      then show ?thesis using nc by blast
    next
      case nz: False
      from cycle_extends_ok[OF nz] obtain c where
        c: "snd (bench_cycle ?b j s) = snd s @ c" and nc: "\<forall>k. Bench_run k 0 \<notin> set c" by blast
      from bench_body_success[OF "1.prems" nz, of E i rnd tot]
      obtain j' rnd' tot' s' p where b: "bench_body E args i j rnd tot s = Next j' rnd' tot' s'"
        and s': "snd s' = snd s @ c @ p" and np: "\<forall>k. Bench_run k 0 \<notin> set p"
        using c by (cases "max_rounds_of (opt args) ?b \<le> rnd"; cases "0 < i") (auto simp: Let_def)
      have step: "bench_loop E args i j rnd tot s = bench_loop E args i j' (rnd' + 1) tot' s'"
        using True b by (subst bench_loop.simps) simp
      from "1.IH"[OF True b "1.prems"] show ?thesis
      proof
        assume "\<exists>w ys. bench_loop E args i j' (rnd' + 1) tot' s' = Some (Loop_end w (snd s' @ ys)) \<and>
                  (\<forall>k. Bench_run k 0 \<notin> set ys)"
        then obtain w ys where
          "bench_loop E args i j rnd tot s = Some (Loop_end w (snd s @ (c @ p @ ys)))"
          "\<forall>k. Bench_run k 0 \<notin> set (c @ p @ ys)"
          using step s' nc np by auto
        then show ?thesis by blast
      next
        assume "\<exists>w ys k msg. bench_loop E args i j' (rnd' + 1) tot' s' =
                    Some (Goto_exit (- 1) w (snd s' @ ys @ [Bench_run k 0, Odph_err msg])) \<and>
                  (\<forall>k. Bench_run k 0 \<notin> set ys)"
        then obtain w ys k msg where
          "bench_loop E args i j rnd tot s =
             Some (Goto_exit (- 1) w (snd s @ (c @ p @ ys) @ [Bench_run k 0, Odph_err msg]))"
          "\<forall>k. Bench_run k 0 \<notin> set (c @ p @ ys)"
          using step s' nc np by auto
        then show ?thesis by blast
      qed
    qed
  qed
qed


lemma bench_passes_normal_trace:
  assumes "opt_bench_idx (opt args) = 0"
  shows "(\<exists>w ys. bench_passes E args i s = Some (Loop_end w (snd s @ ys)) \<and>
                  (\<forall>k. Bench_run k 0 \<notin> set ys)) \<or>
         (\<exists>w ys k msg. bench_passes E args i s =
                    Some (Goto_exit (- 1) w (snd s @ ys @ [Bench_run k 0, Odph_err msg])) \<and>
                  (\<forall>k. Bench_run k 0 \<notin> set ys))"
  using assms
proof (induction E args i s rule: bench_passes.induct)
  case (1 E args i s)
  show ?case
  proof (cases "i < 2")
    case False
    then have "bench_passes E args i s = Some (Loop_end (fst s) (snd s @ []))"
      by (subst bench_passes.simps) simp
    then show ?thesis by fastforce
  next
    case True
    from bench_loop_normal_trace[OF "1.prems", of E i 0 1 0 s] show ?thesis
    proof
      assume "\<exists>w ys. bench_loop E args i 0 1 0 s = Some (Loop_end w (snd s @ ys)) \<and>
                  (\<forall>k. Bench_run k 0 \<notin> set ys)"
      then obtain w ys where l: "bench_loop E args i 0 1 0 s = Some (Loop_end w (snd s @ ys))"
        and ny: "\<forall>k. Bench_run k 0 \<notin> set ys" by blast
      have step: "bench_passes E args i s = bench_passes E args (i + 1) (w, snd s @ ys)"
        using True l by (subst bench_passes.simps) simp
      from "1.IH"[OF True l refl "1.prems"] show ?thesis
      proof
        assume "\<exists>w' zs. bench_passes E args (i + 1) (w, snd s @ ys) =
                    Some (Loop_end w' (snd (w, snd s @ ys) @ zs)) \<and>
                  (\<forall>k. Bench_run k 0 \<notin> set zs)"
        then obtain w' zs where
          "bench_passes E args i s = Some (Loop_end w' (snd s @ (ys @ zs)))"
          "\<forall>k. Bench_run k 0 \<notin> set (ys @ zs)"
          using step ny by auto
        then show ?thesis by blast
      next
        assume "\<exists>w' zs k msg. bench_passes E args (i + 1) (w, snd s @ ys) =
                    Some (Goto_exit (- 1) w' (snd (w, snd s @ ys) @ zs @ [Bench_run k 0, Odph_err msg])) \<and>
                  (\<forall>k. Bench_run k 0 \<notin> set zs)"
        then obtain w' zs k msg where
          "bench_passes E args i s =
             Some (Goto_exit (- 1) w' (snd s @ (ys @ zs) @ [Bench_run k 0, Odph_err msg]))"
          "\<forall>k. Bench_run k 0 \<notin> set (ys @ zs)"
          using step ny by auto
        then show ?thesis by blast
      qed
    next
      assume "\<exists>w ys k msg. bench_loop E args i 0 1 0 s =
                    Some (Goto_exit (- 1) w (snd s @ ys @ [Bench_run k 0, Odph_err msg])) \<and>
                  (\<forall>k. Bench_run k 0 \<notin> set ys)"
      then obtain w ys k msg where
        l: "bench_loop E args i 0 1 0 s =
              Some (Goto_exit (- 1) w (snd s @ ys @ [Bench_run k 0, Odph_err msg]))"
        and ny: "\<forall>k. Bench_run k 0 \<notin> set ys" by blast
      have "bench_passes E args i s =
              Some (Goto_exit (- 1) w (snd s @ ys @ [Bench_run k 0, Odph_err msg]))"
        using True l by (subst bench_passes.simps) simp
      then show ?thesis using ny by blast
    qed
  qed
qed

lemma run_benchmarks_normal_trace:
  assumes "opt_bench_idx (opt args) = 0" and "\<forall>k. Bench_run k 0 \<notin> set (snd s)"
  shows "(\<exists>r w tr. run_benchmarks E args s = Some (Thread_return r (bench_failed args) w tr) \<and>
                  (\<forall>k. Bench_run k 0 \<notin> set tr)) \<or>
         (\<exists>w ys k msg. run_benchmarks E args s =
                    Some (Thread_return 0 (- 1) w (ys @ [Bench_run k 0, Odph_err msg])) \<and>
                  (\<forall>k. Bench_run k 0 \<notin> set ys))"
proof (cases "em_init_core_ok E \<and> create_pools_ok E")
  case False
  then show ?thesis using assms(2) by (auto simp: run_benchmarks_def)
next
  case True
  let ?h = "Print_header (opt_time (opt args) \<noteq> 0)"
  from bench_passes_normal_trace[OF assms(1), of E 0 "(fst s, snd s @ [?h])"] show ?thesis
  proof
    assume "\<exists>w ys. bench_passes E args 0 (fst s, snd s @ [?h]) =
                Some (Loop_end w (snd (fst s, snd s @ [?h]) @ ys)) \<and>
              (\<forall>k. Bench_run k 0 \<notin> set ys)"
    then obtain w ys where
      "run_benchmarks E args s = Some (Thread_return 0 (bench_failed args) w (snd s @ [?h] @ ys))"
      "\<forall>k. Bench_run k 0 \<notin> set (snd s @ [?h] @ ys)"
      using True assms(2) by (auto simp: run_benchmarks_def)
    then show ?thesis by blast
  next
    assume "\<exists>w ys k msg. bench_passes E args 0 (fst s, snd s @ [?h]) =
                Some (Goto_exit (- 1) w (snd (fst s, snd s @ [?h]) @ ys @ [Bench_run k 0, Odph_err msg])) \<and>
              (\<forall>k. Bench_run k 0 \<notin> set ys)"
    then obtain w ys k msg where
      "run_benchmarks E args s =
         Some (Thread_return 0 (- 1) w ((snd s @ [?h] @ ys) @ [Bench_run k 0, Odph_err msg]))"
      "\<forall>k. Bench_run k 0 \<notin> set (snd s @ [?h] @ ys)"
      using True assms(2) by (auto simp: run_benchmarks_def)
    then show ?thesis by blast
  qed
qed

text \<open>
  The normal mode as a whole, for a valid command line and successful start-up and
  tear-down: either no call of \<open>run\<close> returned 0 and the exit status is
  \<open>EXIT_SUCCESS\<close>, or the first call of \<open>run\<close> that returned 0 is the last call made,
  followed only by the error message, and the exit status is \<open>EXIT_FAILURE\<close>.
\<close>

lemma main_normal_trace:
  assumes "startup_ok E" "odp_shm_free_ok E" "odp_term_local_ok E" "odp_term_global_ok E"
    and "parse_args argv (length suite) = Parse_return 0 opts tr0"
    and "opt_bench_idx opts = 0"
  shows "(\<exists>w' tr. main E argv suite w = Some (Exit EXIT_SUCCESS w' tr) \<and>
                  (\<forall>k. Bench_run k 0 \<notin> set tr)) \<or>
         (\<exists>w' ys k msg. main E argv suite w =
                    Some (Exit EXIT_FAILURE w' (ys @ [Bench_run k 0, Odph_err msg])) \<and>
                  (\<forall>k. Bench_run k 0 \<notin> set ys))"
proof (cases "create_queues_ok E")
  case False
  then have "main E argv suite w =
      Some (Exit EXIT_SUCCESS w [Print_info, Odph_err ''EM unscheduled queue create failed''])"
    using main_valid[OF assms(1,5), of w] assms(2-4) by (simp add: main_exit_ok)
  then show ?thesis by auto
next
  case True
  let ?args = "\<lparr> opt = opts, bench = suite, bench_failed = 0 \<rparr>"
  have i: "opt_bench_idx (opt ?args) = 0" using assms(6) by simp
  have n: "\<forall>k. Bench_run k 0 \<notin> set (snd (w, [Print_info]))" by simp
  from run_benchmarks_normal_trace[OF i n, of E] show ?thesis
  proof
    assume "\<exists>r w' tr. run_benchmarks E ?args (w, [Print_info]) =
               Some (Thread_return r (bench_failed ?args) w' tr) \<and> (\<forall>k. Bench_run k 0 \<notin> set tr)"
    then obtain r w' tr where
      "run_benchmarks E ?args (w, [Print_info]) = Some (Thread_return r 0 w' tr)"
      and nt: "\<forall>k. Bench_run k 0 \<notin> set tr" by auto
    then have "main E argv suite w = Some (Exit EXIT_SUCCESS w' tr)"
      using main_valid[OF assms(1,5), of w] True assms(2-4) by (simp add: main_exit_ok)
    then show ?thesis using nt by blast
  next
    assume "\<exists>w' ys k msg. run_benchmarks E ?args (w, [Print_info]) =
               Some (Thread_return 0 (- 1) w' (ys @ [Bench_run k 0, Odph_err msg])) \<and>
             (\<forall>k. Bench_run k 0 \<notin> set ys)"
    then obtain w' ys k msg where
      "run_benchmarks E ?args (w, [Print_info]) =
         Some (Thread_return 0 (- 1) w' (ys @ [Bench_run k 0, Odph_err msg]))"
      and ny: "\<forall>k. Bench_run k 0 \<notin> set ys" by blast
    then have "main E argv suite w =
         Some (Exit EXIT_FAILURE w' (ys @ [Bench_run k 0, Odph_err msg]))"
      using main_valid[OF assms(1,5), of w] True assms(2-4) by (simp add: main_exit_ok)
    then show ?thesis using ny by blast
  qed
qed

lemma main_normal:
  assumes "startup_ok E" "odp_shm_free_ok E" "odp_term_local_ok E" "odp_term_global_ok E"
    and "parse_args argv (length suite) = Parse_return 0 opts tr0"
    and "opt_bench_idx opts = 0"
  shows "\<exists>status w' tr. main E argv suite w = Some (Exit status w' tr) \<and>
           (status = EXIT_SUCCESS \<or> (\<exists>k. Bench_run k 0 \<in> set tr))"
  using main_normal_trace[OF assms, of w] by fastforce

text \<open>
  Claim C1, at a case whose \<open>run\<close> returns \<open>-1\<close>: the test \<open>if (!ret)\<close> lets the value
  pass. The case is not recorded as failed, both passes run to their end over both cases,
  a result line is printed for the case, and the exit status is 0. The typedef of the run
  function says that it returns a value above 0 on success.
\<close>

theorem negative_run_result_is_not_a_failure:
  "main (plain_env None) [(CHR ''r'', 1)] [tick_case ''a'' (- 1), tick_case ''b'' 1] 0 =
     Some (Exit 0 4
       [Print_info, Print_header False,
        Bench_run 0 (- 1), Bench_run 1 1,
        Bench_run 0 (- 1), Print_result 1 ''em_a'' 1 1000,
        Bench_run 1 1, Print_result 2 ''em_b'' 1 1000])"
  by code_simp

text \<open>A \<open>run\<close> that returns 0 stops the whole execution with exit status 1.\<close>

lemma zero_run_result_is_a_failure:
  "main (plain_env None) [(CHR ''r'', 1)] [tick_case ''a'' 0, tick_case ''b'' 1] 0 =
     Some (Exit 1 1
       [Print_info, Print_header False, Bench_run 0 0, Odph_err ''Benchmark a failed''])"
  by code_simp

subsection \<open>Result lines\<close>

lemma cycle_extends: "\<exists>c. snd (bench_cycle b j s) = snd s @ c \<and> result_lines c = []"
  by (auto simp: bench_cycle_def call_init_def call_run_def call_term_def Let_def
           split: option.splits prod.splits)

text \<open>
  Without cancellation and with every \<open>run\<close> succeeding, the inner loop started at case
  \<open>j\<close> prints one result line for each case from \<open>j\<close> on in the measured pass, and none
  in the warm-up pass.
\<close>

lemma bench_loop_lines:
  assumes "opt_bench_idx (opt args) = 0"
    and "\<forall>w. exit_thread E w = 0"
    and "\<forall>b\<in>set (bench args). \<forall>w. fst (bench_run b w) \<noteq> 0"
  shows "\<exists>w ys. bench_loop E args i j rnd tot s = Some (Loop_end w (snd s @ ys)) \<and>
           result_lines ys =
             (if i > 0 then map (\<lambda>k. (int k + 1, label_of (bench args ! k))) [j..<num_bench args]
              else [])"
  using assms
proof (induction E args i j rnd tot s rule: bench_loop.induct)
  case (1 E args i j rnd tot s)
  show ?case
  proof (cases "j < num_bench args")
    case False
    then show ?thesis by (subst bench_loop.simps) auto
  next
    case True
    then have cond: "j < num_bench args \<and> exit_thread E (fst s) = 0" using "1.prems"(2) by simp
    have "bench args ! j \<in> set (bench args)" using True by (simp add: num_bench_def)
    then have "fst (bench_run (bench args ! j) (fst (call_init (bench args ! j) j s))) \<noteq> 0"
      using "1.prems"(3) by blast
    then have nz: "bench_ret (bench args ! j) j s \<noteq> 0"
      by (auto simp: bench_ret_def call_run_def Let_def split: prod.splits)
    note body = bench_body_success[OF "1.prems"(1) nz, of E i rnd tot]
    let ?b = "bench args ! j"
    obtain c where c: "snd (bench_cycle ?b j s) = snd s @ c" "result_lines c = []"
      using cycle_extends by blast
    show ?thesis
    proof (cases "rnd \<ge> max_rounds_of (opt args) ?b")
      case ge: True
      then obtain s' p where
        b: "bench_body E args i j rnd tot s = Next (j + 1) 1 0 s'"
        and s': "snd s' = snd s @ c @ p"
        and l: "result_lines p = (if i > 0 then [(int j + 1, label_of ?b)] else [])"
        using body c by (auto simp: Let_def)
      have step: "bench_loop E args i j rnd tot s = bench_loop E args i (j + 1) (1 + 1) 0 s'"
        using cond b by (subst bench_loop.simps) simp
      from "1.IH"[OF cond b "1.prems"] obtain w ys where
        r: "bench_loop E args i (j + 1) (1 + 1) 0 s' = Some (Loop_end w (snd s' @ ys))"
        and rl: "result_lines ys =
             (if i > 0 then map (\<lambda>k. (int k + 1, label_of (bench args ! k))) [j + 1..<num_bench args]
              else [])"
        by blast
      have u: "[j..<num_bench args] = j # [j + 1..<num_bench args]"
        using True by (simp add: upt_conv_Cons)
      have "bench_loop E args i j rnd tot s = Some (Loop_end w (snd s @ (c @ p @ ys)))"
        using step r s' by simp
      moreover have "result_lines (c @ p @ ys) =
             (if i > 0 then map (\<lambda>k. (int k + 1, label_of (bench args ! k))) [j..<num_bench args]
              else [])"
        using c(2) l rl u by (simp add: result_lines_append)
      ultimately show ?thesis by blast
    next
      case lt: False
      then obtain tot' where
        b: "bench_body E args i j rnd tot s = Next j rnd tot' (bench_cycle ?b j s)"
        using body by (auto simp: Let_def)
      have step: "bench_loop E args i j rnd tot s =
                  bench_loop E args i j (rnd + 1) tot' (bench_cycle ?b j s)"
        using cond b by (subst bench_loop.simps) simp
      from "1.IH"[OF cond b "1.prems"] obtain w ys where
        r: "bench_loop E args i j (rnd + 1) tot' (bench_cycle ?b j s) =
              Some (Loop_end w (snd (bench_cycle ?b j s) @ ys))"
        and rl: "result_lines ys =
             (if i > 0 then map (\<lambda>k. (int k + 1, label_of (bench args ! k))) [j..<num_bench args]
              else [])"
        by blast
      have "bench_loop E args i j rnd tot s = Some (Loop_end w (snd s @ (c @ ys)))"
        using step r c(1) by simp
      moreover have "result_lines (c @ ys) =
             (if i > 0 then map (\<lambda>k. (int k + 1, label_of (bench args ! k))) [j..<num_bench args]
              else [])"
        using c(2) rl by (simp add: result_lines_append)
      ultimately show ?thesis by blast
    qed
  qed
qed

text \<open>
  Claim C5. In a full run in the normal mode (no case index selected, \<open>exit_thread\<close>
  never set, every \<open>run\<close> succeeding) over \<open>num_bench\<close> cases, the warm-up pass
  \<open>i = 0\<close> adds no result line to the trace, and the measured pass \<open>i = 1\<close> adds
  exactly one result line per case, in the order of the table, the line of case \<open>j\<close>
  carrying the index \<open>j + 1\<close> and the name of that case. \<open>run_benchmarks\<close> returns
  with exactly these lines after the header.
\<close>

theorem warm_up_pass_prints_nothing:
  assumes "opt_bench_idx (opt args) = 0"
    and "\<forall>w. exit_thread E w = 0"
    and "\<forall>b\<in>set (bench args). \<forall>w. fst (bench_run b w) \<noteq> 0"
    and "em_init_core_ok E" and "create_pools_ok E"
  shows "\<exists>w1 ys1 w2 ys2.
     bench_loop E args 0 0 1 0 (fst s, snd s @ [Print_header (opt_time (opt args) \<noteq> 0)]) =
        Some (Loop_end w1 (snd s @ [Print_header (opt_time (opt args) \<noteq> 0)] @ ys1)) \<and>
     result_lines ys1 = [] \<and>
     bench_loop E args 1 0 1 0 (w1, snd s @ [Print_header (opt_time (opt args) \<noteq> 0)] @ ys1) =
        Some (Loop_end w2 (snd s @ [Print_header (opt_time (opt args) \<noteq> 0)] @ ys1 @ ys2)) \<and>
     result_lines ys2 = map (\<lambda>j. (int j + 1, label_of (bench args ! j))) [0..<num_bench args] \<and>
     run_benchmarks E args s =
        Some (Thread_return 0 (bench_failed args) w2
               (snd s @ [Print_header (opt_time (opt args) \<noteq> 0)] @ ys1 @ ys2))"
proof -
  let ?h = "Print_header (opt_time (opt args) \<noteq> 0)"
  from bench_loop_lines[OF assms(1-3), of 0 0 1 0 "(fst s, snd s @ [?h])"]
  obtain w1 ys1 where
    p0: "bench_loop E args 0 0 1 0 (fst s, snd s @ [?h]) = Some (Loop_end w1 (snd s @ [?h] @ ys1))"
    and l0: "result_lines ys1 = []"
    by auto
  from bench_loop_lines[OF assms(1-3), of 1 0 1 0 "(w1, snd s @ [?h] @ ys1)"]
  obtain w2 ys2 where
    p1: "bench_loop E args 1 0 1 0 (w1, snd s @ [?h] @ ys1) =
           Some (Loop_end w2 (snd s @ [?h] @ ys1 @ ys2))"
    and l1: "result_lines ys2 = map (\<lambda>j. (int j + 1, label_of (bench args ! j))) [0..<num_bench args]"
    by auto
  have "bench_passes E args 2 (w2, snd s @ [?h] @ ys1 @ ys2) =
          Some (Loop_end w2 (snd s @ [?h] @ ys1 @ ys2))"
    by (subst bench_passes.simps) simp
  then have "bench_passes E args 1 (w1, snd s @ [?h] @ ys1) =
          Some (Loop_end w2 (snd s @ [?h] @ ys1 @ ys2))"
    using p1 by (subst bench_passes.simps) (simp add: numeral_2_eq_2)
  then have "bench_passes E args 0 (fst s, snd s @ [?h]) =
          Some (Loop_end w2 (snd s @ [?h] @ ys1 @ ys2))"
    using p0 by (subst bench_passes.simps) simp
  then have "run_benchmarks E args s =
        Some (Thread_return 0 (bench_failed args) w2 (snd s @ [?h] @ ys1 @ ys2))"
    using assms(4,5) by (simp add: run_benchmarks_def)
  with p0 l0 p1 l1 show ?thesis by blast
qed

theorem warm_up_pass_prints_nothing_witness:
  "\<exists>w tr. run_benchmarks (plain_env None)
            \<lparr> opt = default_opt\<lparr>opt_rounds := 2\<rparr>,
              bench = [tick_case ''a'' 1, tick_case ''b'' 1], bench_failed = 0 \<rparr> (0, []) =
            Some (Thread_return 0 0 w tr) \<and>
          result_lines tr = [(1, ''em_a''), (2, ''em_b'')]"
proof -
  let ?args = "\<lparr> opt = default_opt\<lparr>opt_rounds := 2\<rparr>,
                 bench = [tick_case ''a'' 1, tick_case ''b'' 1], bench_failed = 0 \<rparr>"
  let ?E = "plain_env None :: nat env_t"
  have h1: "opt_bench_idx (opt ?args) = 0" by (simp add: default_opt_def)
  have h2: "\<forall>w. exit_thread ?E w = 0" by (simp add: plain_env_def)
  have h3: "\<forall>b\<in>set (bench ?args). \<forall>w. fst (bench_run b w) \<noteq> 0" by (simp add: tick_case_def)
  have h4: "em_init_core_ok ?E" and h5: "create_pools_ok ?E" by (simp_all add: plain_env_def)
  from warm_up_pass_prints_nothing[OF h1 h2 h3 h4 h5, of "(0, [])"]
  obtain w2 ys1 ys2 where
    r: "run_benchmarks ?E ?args (0, []) =
          Some (Thread_return 0 (bench_failed ?args) w2
                 (snd (0::nat, []) @ [Print_header (opt_time (opt ?args) \<noteq> 0)] @ ys1 @ ys2))"
    and l1: "result_lines ys1 = []"
    and l2: "result_lines ys2 = map (\<lambda>j. (int j + 1, label_of (bench ?args ! j))) [0..<num_bench ?args]"
    by blast
  have "[0..<num_bench ?args] = [0, 1]" by (simp add: num_bench_def upt_rec)
  then have "result_lines ys2 = [(1, ''em_a''), (2, ''em_b'')]"
    using l2 by (simp add: label_of_def tick_case_def)
  then show ?thesis using r l1 by (simp add: result_lines_append)
qed

section \<open>The exit status after cancellation\<close>

text \<open>When a case index is selected, the cases before it are skipped.\<close>

lemma bench_body_skip:
  assumes "opt_bench_idx (opt args) = int m + 1" "j < m"
  shows "bench_body E args i j rnd tot s = Next (j + 1) rnd tot s"
  using assms by (simp add: bench_body_def Let_def)

lemma bench_body_selected:
  assumes "opt_bench_idx (opt args) = int m + 1"
  shows "bench_body E args i m rnd tot s =
           Leave (case run_indef E args m s of
              None \<Rightarrow> None
            | Some (Indef_return w tr) \<Rightarrow> Some (Goto_exit (bench_failed args) w tr)
            | Some (Indef_abort w tr) \<Rightarrow> Some (Abort w tr))"
  using assms by (simp add: bench_body_def Let_def)

lemma bench_loop_skip:
  assumes "opt_bench_idx (opt args) = int m + 1" "m < num_bench args" "j \<le> m"
    and "exit_thread E (fst s) = 0"
  shows "bench_loop E args i j rnd tot s =
           (case run_indef E args m s of
              None \<Rightarrow> None
            | Some (Indef_return w tr) \<Rightarrow> Some (Goto_exit (bench_failed args) w tr)
            | Some (Indef_abort w tr) \<Rightarrow> Some (Abort w tr))"
  using assms(3)
proof (induction "m - j" arbitrary: j rnd)
  case 0
  then have "j = m" by simp
  then show ?case using assms(2,4) bench_body_selected[OF assms(1), of E i rnd tot s]
    by (subst bench_loop.simps) simp
next
  case (Suc d)
  then have lt: "j < m" by simp
  have "bench_loop E args i j rnd tot s = bench_loop E args i (j + 1) (rnd + 1) tot s"
    using lt assms(2,4) bench_body_skip[OF assms(1) lt, of E i rnd tot s]
    by (subst bench_loop.simps) simp
  moreover have "d = m - (j + 1)" using Suc(2) by simp
  moreover have "j + 1 \<le> m" using lt by simp
  ultimately show ?case using Suc(1)[of "j + 1" "rnd + 1"] by simp
qed

lemma fst_call_init: "fst (call_init b j s) = (case bench_init b of None \<Rightarrow> fst s | Some f \<Rightarrow> f (fst s))"
  by (simp add: call_init_def split: option.splits)

lemma fst_call_term: "fst (call_term b j s) = (case bench_term b of None \<Rightarrow> fst s | Some f \<Rightarrow> f (fst s))"
  by (simp add: call_term_def split: option.splits)

lemma call_run_parts:
  "fst (call_run b j s) = fst (bench_run b (fst s))"
  "fst (snd (call_run b j s)) = snd (bench_run b (fst s))"
  by (simp_all add: call_run_def split: prod.splits)

lemma bench_cycle_world:
  assumes "fst s = fst s'"
  shows "fst (bench_cycle b j s) = fst (bench_cycle b j s')"
    and "bench_ret b j s = bench_ret b j s'"
proof -
  show "fst (bench_cycle b j s) = fst (bench_cycle b j s')"
    using assms
    by (cases "bench_init b"; cases "bench_term b")
       (simp_all add: bench_cycle_def fst_call_term call_run_parts fst_call_init)
  show "bench_ret b j s = bench_ret b j s'"
    using assms
    by (cases "bench_init b") (simp_all add: bench_ret_def call_run_parts fst_call_init)
qed

lemma bench_cycle_pow_world:
  assumes "fst s = fst s'"
  shows "fst ((bench_cycle b j ^^ i) s) = fst ((bench_cycle b j ^^ i) s')"
proof (induction i)
  case 0
  show ?case using assms by simp
next
  case (Suc i)
  from bench_cycle_world(1)[OF Suc.IH] show ?case by simp
qed

lemma bench_ret_pow_world:
  "fst s = fst s' \<Longrightarrow>
   bench_ret b j ((bench_cycle b j ^^ i) s) = bench_ret b j ((bench_cycle b j ^^ i) s')"
  by (rule bench_cycle_world(2)) (rule bench_cycle_pow_world)

lemma bench_passes_exit:
  assumes "bench_loop E args 0 0 1 0 s = Some (Goto_exit f w tr)"
  shows "bench_passes E args 0 s = Some (Goto_exit f w tr)"
  using assms by (subst bench_passes.simps) simp

lemma bench_passes_cancelled:
  assumes "exit_thread E (fst s) \<noteq> 0"
  shows "bench_passes E args 0 s = Some (Loop_end (fst s) (snd s))"
proof -
  have l: "bench_loop E args i 0 1 0 s = Some (Loop_end (fst s) (snd s))" for i
    using assms by (subst bench_loop.simps) simp
  have "bench_passes E args 2 s = Some (Loop_end (fst s) (snd s))"
    by (subst bench_passes.simps) simp
  then have "bench_passes E args 1 s = Some (Loop_end (fst s) (snd s))"
    using l[of 1] by (subst bench_passes.simps) (simp add: numeral_2_eq_2)
  then show ?thesis
    using l[of 0] by (subst bench_passes.simps) simp
qed

lemma main_indef:
  assumes env: "startup_ok E" "odp_shm_free_ok E" "odp_term_local_ok E" "odp_term_global_ok E"
    and parse: "parse_args argv (length suite) = Parse_return 0 opts tr0"
    and idx: "opt_bench_idx opts = int m + 1"
    and clear: "\<forall>i<k. exit_thread E (fst ((bench_cycle (suite ! m) m ^^ i) (w, []))) = 0 \<and>
                bench_ret (suite ! m) m ((bench_cycle (suite ! m) m ^^ i) (w, [])) \<noteq> 0"
    and set: "exit_thread E (fst ((bench_cycle (suite ! m) m ^^ k) (w, []))) \<noteq> 0"
  shows "\<exists>w' tr. main E argv suite w = Some (Exit EXIT_SUCCESS w' tr)"
proof -
  let ?args = "\<lparr> opt = opts, bench = suite, bench_failed = 0 \<rparr>"
  let ?b = "suite ! m"
  have m: "m < num_bench ?args"
    using parse_args_valid(7)[OF parse] idx by (simp add: num_bench_def)
  have ex: "main_exit E 0 s = Exit EXIT_SUCCESS (fst s) (snd s)" for s
    using env by (simp add: main_exit_ok)
  note mv = main_valid[OF env(1) parse, of w]
  show ?thesis
  proof (cases "create_queues_ok E")
    case False
    then show ?thesis using mv ex by simp
  next
    case q: True
    show ?thesis
    proof (cases "em_init_core_ok E \<and> create_pools_ok E")
      case False
      then have "\<exists>tr. run_benchmarks E ?args (w, [Print_info]) =
                   Some (Thread_return (- 1) 0 w tr)"
        by (auto simp: run_benchmarks_def)
      then show ?thesis using mv q ex by auto
    next
      case ok: True
      let ?s = "(w, [Print_info, Print_header (opt_time opts \<noteq> 0)])"
      have rb: "run_benchmarks E ?args (w, [Print_info]) =
          (case bench_passes E ?args 0 ?s of
             None \<Rightarrow> None
           | Some (Loop_end w tr) \<Rightarrow> Some (Thread_return 0 (bench_failed ?args) w tr)
           | Some (Goto_exit failed w tr) \<Rightarrow> Some (Thread_return 0 failed w tr)
           | Some (Abort w tr) \<Rightarrow> Some (Thread_abort w tr))"
        using ok by (simp add: run_benchmarks_def)
      show ?thesis
      proof (cases "exit_thread E w = 0")
        case False
        then have "bench_passes E ?args 0 ?s = Some (Loop_end (fst ?s) (snd ?s))"
          by (intro bench_passes_cancelled) simp
        then show ?thesis using rb mv q ex by simp
      next
        case True
        let ?start = "(w, snd ?s @ [Print_running (desc_of ?b)])"
        let ?fin = "(bench_cycle ?b m ^^ k) ?start"
        have c: "\<forall>i<k. exit_thread E (fst ((bench_cycle ?b m ^^ i) ?start)) = 0 \<and>
                bench_ret ?b m ((bench_cycle ?b m ^^ i) ?start) \<noteq> 0"
          using clear bench_cycle_pow_world[where s = "(w, [])" and s' = ?start and b = ?b and j = m]
            bench_ret_pow_world[where s = "(w, [])" and s' = ?start and b = ?b and j = m]
          by simp
        have st: "exit_thread E (fst ?fin) \<noteq> 0"
          using set bench_cycle_pow_world[where s = "(w, [])" and s' = ?start and b = ?b and j = m and i = k]
          by simp
        have "run_indef E ?args m ?s = Some (Indef_return (fst ?fin) (snd ?fin))"
          using indef_after_k[OF c st] by (simp add: run_indef_def Let_def)
        moreover have "opt_bench_idx (opt ?args) = int m + 1" using idx by simp
        moreover have "exit_thread E (fst ?s) = 0" using True by simp
        ultimately have "bench_loop E ?args 0 0 1 0 ?s = Some (Goto_exit 0 (fst ?fin) (snd ?fin))"
          using bench_loop_skip[where args = ?args and m = m and j = 0 and E = E and s = ?s
                                  and i = 0 and rnd = 1 and tot = 0] m
          by simp
        then have "bench_passes E ?args 0 ?s = Some (Goto_exit 0 (fst ?fin) (snd ?fin))"
          by (rule bench_passes_exit)
        then show ?thesis using rb mv q ex by simp
      qed
    qed
  qed
qed

text \<open>
  Claim C9. Let the library calls of the start-up and of the tear-down succeed and the
  command line be valid. In the normal mode \<open>main\<close> always returns, and its exit status
  is \<open>EXIT_SUCCESS\<close> unless some call of \<open>run\<close> returned 0: a run cut short by
  \<open>exit_thread\<close> ends with the same status as a complete one. In the indefinite mode,
  when \<open>exit_thread\<close> is found set after \<open>k\<close> turns in which \<open>run\<close> succeeded,
  \<open>main\<close> returns with \<open>EXIT_SUCCESS\<close>.
\<close>

theorem cancelled_run_exits_with_success:
  assumes "startup_ok E" "odp_shm_free_ok E" "odp_term_local_ok E" "odp_term_global_ok E"
    and "parse_args argv (length suite) = Parse_return 0 opts tr0"
  shows "(opt_bench_idx opts = 0 \<longrightarrow>
            (\<exists>status w' tr. main E argv suite w = Some (Exit status w' tr) \<and>
               (status = EXIT_SUCCESS \<or> (\<exists>j. Bench_run j 0 \<in> set tr)))) \<and>
         (opt_bench_idx opts = int m + 1 \<and>
          (\<forall>i<k. exit_thread E (fst ((bench_cycle (suite ! m) m ^^ i) (w, []))) = 0 \<and>
                  bench_ret (suite ! m) m ((bench_cycle (suite ! m) m ^^ i) (w, [])) \<noteq> 0) \<and>
          exit_thread E (fst ((bench_cycle (suite ! m) m ^^ k) (w, []))) \<noteq> 0 \<longrightarrow>
            (\<exists>w' tr. main E argv suite w = Some (Exit EXIT_SUCCESS w' tr)))"
  using main_normal[OF assms, of w] main_indef[OF assms, of m k w] by blast

theorem cancelled_run_exits_with_success_witness:
  "main (plain_env (Some 3)) [(CHR ''r'', 2)] [tick_case ''a'' 1, tick_case ''b'' 1] 0 =
     Some (Exit EXIT_SUCCESS 3
            [Print_info, Print_header False, Bench_run 0 1, Bench_run 0 1, Bench_run 1 1]) \<and>
   (\<exists>w' tr. main (plain_env (Some 3)) [(CHR ''i'', 1)] [cycle_case ''a'' 1] 0 =
     Some (Exit EXIT_SUCCESS w' tr))"
proof -
  let ?E = "plain_env (Some 3)"
  have e: "startup_ok ?E" "odp_shm_free_ok ?E" "odp_term_local_ok ?E" "odp_term_global_ok ?E"
    by (simp_all add: plain_env_def)
  have p1: "parse_args [(CHR ''r'', 2)] (length [tick_case ''a'' 1, tick_case ''b'' 1]) =
              Parse_return 0 (default_opt\<lparr>opt_rounds := 2\<rparr>) []"
    by (simp add: parse_args_def default_opt_def MAX_BURST_def)
  have p2: "parse_args [(CHR ''i'', 1)] (length [cycle_case ''a'' 1]) =
              Parse_return 0 (default_opt\<lparr>opt_bench_idx := 1\<rparr>) []"
    by (simp add: parse_args_def default_opt_def MAX_BURST_def)
  have i1: "opt_bench_idx (default_opt\<lparr>opt_rounds := 2\<rparr>) = 0" by (simp add: default_opt_def)
  have i2: "opt_bench_idx (default_opt\<lparr>opt_bench_idx := 1\<rparr>) = int 0 + 1" by simp
  have c: "\<forall>i<3. exit_thread ?E (fst ((bench_cycle ([cycle_case ''a'' 1] ! 0) 0 ^^ i) (0, []))) = 0 \<and>
             bench_ret ([cycle_case ''a'' 1] ! 0) 0
               ((bench_cycle ([cycle_case ''a'' 1] ! 0) 0 ^^ i) (0, [])) \<noteq> 0"
    by (simp add: cycle_case_pow plain_env_def bench_ret_def call_init_def call_run_def)
       (simp add: cycle_case_def)
  have st: "exit_thread ?E (fst ((bench_cycle ([cycle_case ''a'' 1] ! 0) 0 ^^ 3) (0, []))) \<noteq> 0"
    by (simp add: cycle_case_pow plain_env_def)
  from cancelled_run_exits_with_success[OF e p2, where m = 0 and k = 3 and w = 0] i2 c st
  have indef: "\<exists>w' tr. main ?E [(CHR ''i'', 1)] [cycle_case ''a'' 1] 0 = Some (Exit EXIT_SUCCESS w' tr)"
    by blast
  have ev: "main ?E [(CHR ''r'', 2)] [tick_case ''a'' 1, tick_case ''b'' 1] 0 =
     Some (Exit 0 3 [Print_info, Print_header False, Bench_run 0 1, Bench_run 0 1, Bench_run 1 1])"
    by code_simp
  from cancelled_run_exits_with_success[OF e p1, where m = 0 and k = 0 and w = 0] i1
  obtain status w' tr where
    "main ?E [(CHR ''r'', 2)] [tick_case ''a'' 1, tick_case ''b'' 1] 0 = Some (Exit status w' tr)"
    "status = EXIT_SUCCESS \<or> (\<exists>j. Bench_run j 0 \<in> set tr)"
    by blast
  with ev have "main ?E [(CHR ''r'', 2)] [tick_case ''a'' 1, tick_case ''b'' 1] 0 =
     Some (Exit EXIT_SUCCESS 3
            [Print_info, Print_header False, Bench_run 0 1, Bench_run 0 1, Bench_run 1 1])"
    by auto
  with indef show ?thesis by blast
qed

section \<open>Round accounting\<close>

text \<open>The divisor of the average is the product of the ceiling and 1000 while that fits 32 bits.\<close>

lemma divisor_without_wrap:
  fixes m :: "32 word"
  assumes "unat m * 1000 < 2 ^ 32"
  shows "unat (m * word_of_int REPEAT_COUNT) = unat m * 1000"
proof -
  have "unat (m * 1000) = unat m * unat (1000 :: 32 word) mod 2 ^ 32"
    by (simp add: unat_word_ariths)
  then show ?thesis using assms by (simp add: REPEAT_COUNT_def)
qed

lemma tick_case_facts:
  "bench_ret (tick_case nm r) j s = r"
  "bench_cycle (tick_case nm r) j s = (Suc (fst s), snd s @ [Bench_run j r])"
  "call_init (tick_case nm r) j s = s"
  "call_run (tick_case nm r) j s = (r, Suc (fst s), snd s @ [Bench_run j r])"
  "label_of (tick_case nm r) = ''em_'' @ nm"
  "bench_max_rounds (tick_case nm r) = 0"
  by (simp_all add: bench_ret_def bench_cycle_def call_init_def call_run_def call_term_def
        tick_case_def label_of_def)

lemma plain_env_elapsed:
  "elapsed (plain_env stop) opts (stamp (plain_env stop) opts (Suc w)) (stamp (plain_env stop) opts w) = 1"
  by (simp add: elapsed_def stamp_def plain_env_def)

lemma plain_env_never: "exit_thread (plain_env None) w = 0"
  by (simp add: plain_env_def)

lemma tick_body:
  assumes "opt_bench_idx opts = 0"
  shows "bench_body (plain_env None) \<lparr> opt = opts, bench = [tick_case nm 1], bench_failed = 0 \<rparr>
           i 0 rnd tot (w, tr) =
         (if rnd \<ge> opt_rounds opts
          then Next 1 1 0 (Suc w, tr @ [Bench_run 0 1] @
                 (if i > 0 then [Print_result 1 (''em_'' @ nm) (tot + 1)
                                   (opt_rounds opts * word_of_int REPEAT_COUNT)] else []))
          else Next 0 rnd (tot + 1) (Suc w, tr @ [Bench_run 0 1]))"
proof -
  let ?args = "\<lparr> opt = opts, bench = [tick_case nm 1], bench_failed = 0 \<rparr>"
  have a: "opt_bench_idx (opt ?args) = 0" using assms by simp
  have b: "bench_ret (bench ?args ! 0) 0 (w, tr) \<noteq> 0" by (simp add: tick_case_facts)
  show ?thesis
    using bench_body_success[OF a b, of "plain_env None" i rnd tot]
    by (simp add: Let_def tick_case_facts plain_env_elapsed max_rounds_of_def)
qed

lemma tick_rounds:
  fixes rnd :: "32 word"
  assumes "opt_bench_idx opts = 0" and "rnd \<le> opt_rounds opts"
  shows "bench_loop (plain_env None) \<lparr> opt = opts, bench = [tick_case nm 1], bench_failed = 0 \<rparr>
           i 0 rnd tot (w, tr) =
         Some (Loop_end (w + (unat (opt_rounds opts) - unat rnd + 1))
                (tr @ replicate (unat (opt_rounds opts) - unat rnd + 1) (Bench_run 0 1) @
                 (if i > 0 then [Print_result 1 (''em_'' @ nm)
                                   (tot + of_nat (unat (opt_rounds opts) - unat rnd + 1))
                                   (opt_rounds opts * word_of_int REPEAT_COUNT)] else [])))"
  using assms(2)
proof (induction "unat (opt_rounds opts) - unat rnd" arbitrary: rnd tot w tr)
  case 0
  let ?args = "\<lparr> opt = opts, bench = [tick_case nm 1], bench_failed = 0 \<rparr>"
  from 0 have e: "rnd = opt_rounds opts"
    by (simp add: word_le_nat_alt word_unat_eq_iff)
  have fin: "bench_loop (plain_env None) ?args i (Suc 0) 2 0 s = Some (Loop_end (fst s) (snd s))" for s
    by (subst bench_loop.simps) (simp add: num_bench_def)
  show ?case
    using tick_body[OF assms(1), of nm i rnd tot w tr] e
    by (subst bench_loop.simps) (simp add: num_bench_def plain_env_never fin)
next
  case (Suc d)
  let ?args = "\<lparr> opt = opts, bench = [tick_case nm 1], bench_failed = 0 \<rparr>"
  from Suc(2) have lt: "rnd < opt_rounds opts" by (simp add: word_less_nat_alt)
  have nle: "\<not> opt_rounds opts \<le> rnd" using lt by (simp add: not_le)
  have u: "unat (rnd + 1) = Suc (unat rnd)" by (rule unat_round_incr[OF lt])
  have le: "rnd + 1 \<le> opt_rounds opts" using lt u by (simp add: word_le_nat_alt word_less_nat_alt)
  have d: "d = unat (opt_rounds opts) - unat (rnd + 1)" using Suc(2) u by simp
  have step: "bench_loop (plain_env None) ?args i 0 rnd tot (w, tr) =
              bench_loop (plain_env None) ?args i 0 (rnd + 1) (tot + 1) (Suc w, tr @ [Bench_run 0 1])"
    using tick_body[OF assms(1), of nm i rnd tot w tr] nle
    by (subst bench_loop.simps) (simp add: num_bench_def plain_env_never)
  have n: "unat (opt_rounds opts) - unat rnd + 1 = Suc (unat (opt_rounds opts) - unat (rnd + 1) + 1)"
    using Suc(2) u by simp
  show ?case
    unfolding step Suc(1)[OF d le] n
    by (simp add: replicate_app_Cons_same)
qed

lemma bench_passes_two:
  assumes "bench_loop E args 0 0 1 0 s = Some (Loop_end w1 tr1)"
    and "bench_loop E args 1 0 1 0 (w1, tr1) = Some (Loop_end w2 tr2)"
  shows "bench_passes E args 0 s = Some (Loop_end w2 tr2)"
proof -
  have "bench_passes E args 2 (w2, tr2) = Some (Loop_end w2 tr2)"
    by (subst bench_passes.simps) simp
  then have "bench_passes E args 1 (w1, tr1) = Some (Loop_end w2 tr2)"
    using assms(2) by (subst bench_passes.simps) (simp add: numeral_2_eq_2)
  then show ?thesis
    using assms(1) by (subst bench_passes.simps) simp
qed

text \<open>
  Claim C3, with 4294968 rounds configured and one case whose \<open>run\<close> takes one tick.
  The measured pass runs 4294968 rounds and accumulates 4294968 ticks. The divisor
  \<open>max_rounds * REPEAT_COUNT\<close> is computed in \<open>uint32_t\<close>: 4294968000 wraps to 704,
  so the quotient printed is 4294968 / 704 and not 4294968 / (4294968 * 1000).
\<close>

theorem average_divisor_wraps:
  "main (plain_env None) [(CHR ''r'', 4294968)] [tick_case ''a'' 1] 0 =
     Some (Exit 0 8589936
       ([Print_info, Print_header False] @
        replicate 4294968 (Bench_run 0 1) @
        replicate 4294968 (Bench_run 0 1) @
        [Print_result 1 ''em_a'' 4294968 704]))"
proof -
  let ?opts = "default_opt\<lparr>opt_rounds := 4294968\<rparr>"
  let ?args = "\<lparr> opt = ?opts, bench = [tick_case ''a'' 1], bench_failed = 0 \<rparr>"
  let ?E = "plain_env None :: nat env_t"
  have parse: "parse_args [(CHR ''r'', 4294968)] (length [tick_case ''a'' 1]) = Parse_return 0 ?opts []"
    by (simp add: parse_args_def default_opt_def MAX_BURST_def)
  have idx: "opt_bench_idx ?opts = 0" by (simp add: default_opt_def)
  have le: "(1::32 word) \<le> opt_rounds ?opts" by simp
  have n: "unat (opt_rounds ?opts) - unat (1::32 word) + 1 = 4294968" by simp
  have d: "opt_rounds ?opts * word_of_int REPEAT_COUNT = 704" by (simp add: REPEAT_COUNT_def)
  have p0: "bench_loop ?E ?args 0 0 1 0 (0, [Print_info, Print_header False]) =
      Some (Loop_end 4294968 ([Print_info, Print_header False] @ replicate 4294968 (Bench_run 0 1)))"
    using tick_rounds[OF idx le, of "''a''" 0 0 0 "[Print_info, Print_header False]"]
    unfolding n by simp
  have p1: "bench_loop ?E ?args 1 0 1 0
        (4294968, [Print_info, Print_header False] @ replicate 4294968 (Bench_run 0 1)) =
      Some (Loop_end 8589936 ([Print_info, Print_header False] @ replicate 4294968 (Bench_run 0 1) @
          replicate 4294968 (Bench_run 0 1) @ [Print_result 1 ''em_a'' 4294968 704]))"
    using tick_rounds[OF idx le, of "''a''" 1 0 4294968
            "[Print_info, Print_header False] @ replicate 4294968 (Bench_run 0 1)"]
    unfolding n d by simp
  have "bench_passes ?E ?args 0 (0, [Print_info, Print_header False]) =
      Some (Loop_end 8589936 ([Print_info, Print_header False] @ replicate 4294968 (Bench_run 0 1) @
          replicate 4294968 (Bench_run 0 1) @ [Print_result 1 ''em_a'' 4294968 704]))"
    by (rule bench_passes_two[OF p0 p1])
  moreover have "opt_time ?opts = 0" by (simp add: default_opt_def)
  ultimately have rb: "run_benchmarks ?E ?args (0, [Print_info]) =
      Some (Thread_return 0 0 8589936 ([Print_info, Print_header False] @
          replicate 4294968 (Bench_run 0 1) @
          replicate 4294968 (Bench_run 0 1) @ [Print_result 1 ''em_a'' 4294968 704]))"
    by (simp add: run_benchmarks_def plain_env_def)
  have s: "startup_ok ?E" by (simp add: plain_env_def)
  show ?thesis
    unfolding main_valid[OF s parse] rb
    by (simp add: plain_env_def main_exit_def EXIT_SUCCESS_def)
qed

text \<open>
  Claim C4, with three rounds configured and three cases, the last with \<open>max_rounds = 2\<close>.
  The first case runs three rounds in each pass. After a case is finished the body sets
  \<open>round = 1\<close> and the loop header adds one, so every later case starts at round 2: the
  second case runs two rounds where the ceiling is 3, the third one round where the
  ceiling is \<open>min 3 2 = 2\<close>. The divisors 3000 and 2000 are still those of the ceilings.
\<close>

theorem later_cases_run_one_round_less:
  "main (plain_env None) [(CHR ''r'', 3)]
        [tick_case ''a'' 1, tick_case ''b'' 1, (tick_case ''c'' 1)\<lparr>bench_max_rounds := 2\<rparr>] 0 =
     Some (Exit 0 12
       [Print_info, Print_header False,
        Bench_run 0 1, Bench_run 0 1, Bench_run 0 1,
        Bench_run 1 1, Bench_run 1 1,
        Bench_run 2 1,
        Bench_run 0 1, Bench_run 0 1, Bench_run 0 1,
        Print_result 1 ''em_a'' 3 3000,
        Bench_run 1 1, Bench_run 1 1,
        Print_result 2 ''em_b'' 2 3000,
        Bench_run 2 1,
        Print_result 3 ''em_c'' 1 2000])"
  by code_simp

section \<open>Bounds of the table indices\<close>

lemma split_index:
  fixes idx b :: int
  assumes "0 \<le> idx" "idx < 1000 * b" "1 \<le> b"
  shows "\<exists>i k. idx = i * b + k \<and> 0 \<le> i \<and> i < 1000 \<and> 0 \<le> k \<and> k < b"
proof (intro exI conjI)
  show e: "idx = (idx div b) * b + idx mod b" by simp
  show "0 \<le> idx div b" using assms by (simp add: pos_imp_zdiv_nonneg_iff)
  show "idx div b < 1000"
  proof (rule ccontr)
    assume "\<not> idx div b < 1000"
    then have "1000 \<le> idx div b" by simp
    then have "1000 * b \<le> (idx div b) * b" using assms(3) by (simp add: mult_right_mono)
    moreover have "0 \<le> idx mod b" using assms(3) by simp
    ultimately have "1000 * b \<le> idx" using e by linarith
    then show False using assms(2) by simp
  qed
  show "0 \<le> idx mod b" using assms by simp
  show "idx mod b < b" using assms by simp
qed

lemma below_iff: "below n acc \<longleftrightarrow> (\<forall>a\<in>set acc. 0 \<le> snd a \<and> snd a < n)"
  by (simp add: below_def list_all_iff)

lemma below_Nil: "below n []"
  by (simp add: below_def)

lemma below_append: "below n (a @ b) \<longleftrightarrow> below n a \<and> below n b"
  by (simp add: below_def)

lemma below_at: "below n (at t i) \<longleftrightarrow> 0 \<le> i \<and> i < n"
  by (simp add: below_def at_def)

lemma below_span:
  assumes "0 \<le> off" "off + m \<le> n"
  shows "below n (span t off m)"
  using assms by (auto simp: below_iff span_def)

lemma below_for_loop:
  assumes "\<And>i. 0 \<le> i \<Longrightarrow> i < m \<Longrightarrow> below n (body i)"
  shows "below n (for_loop m body)"
proof -
  have "\<And>k. k < nat m \<Longrightarrow> below n (body (int k))"
    using assms by simp
  then show ?thesis by (auto simp: below_iff for_loop_def)
qed

lemma below_mono: "below n acc \<Longrightarrow> n \<le> n' \<Longrightarrow> below n' acc"
  by (auto simp: below_iff)

lemma burst_slice:
  fixes i b :: int
  assumes "0 \<le> i" "i < REPEAT_COUNT" "1 \<le> b"
  shows "0 \<le> i * b" and "i * b + b \<le> REPEAT_COUNT * b"
proof -
  show "0 \<le> i * b" using assms by simp
  have "(i + 1) * b \<le> REPEAT_COUNT * b"
    using assms by (intro mult_right_mono) simp_all
  then show "i * b + b \<le> REPEAT_COUNT * b" by (simp add: algebra_simps)
qed

lemma below_single:
  assumes "1 \<le> b" "0 \<le> i" "i < REPEAT_COUNT"
  shows "below (REPEAT_COUNT * b) (at t i)"
proof -
  have "REPEAT_COUNT * 1 \<le> REPEAT_COUNT * b"
    using assms(1) by (intro mult_left_mono) (simp_all add: REPEAT_COUNT_def)
  then have "REPEAT_COUNT \<le> REPEAT_COUNT * b" by simp
  then have "i < REPEAT_COUNT * b" using assms(3) by linarith
  then show ?thesis using assms(2) by (simp add: below_at)
qed

lemma below_multi:
  assumes "1 \<le> b" "0 \<le> i" "i < REPEAT_COUNT"
  shows "below (REPEAT_COUNT * b) (span t (i * b) b)"
  using burst_slice[OF assms(2,3,1)] by (rule below_span)

lemma below_first_burst:
  assumes "1 \<le> b"
  shows "below (REPEAT_COUNT * b) (span t 0 b)"
proof -
  have "1 * b \<le> REPEAT_COUNT * b"
    using assms by (intro mult_right_mono) (simp_all add: REPEAT_COUNT_def)
  then have "0 + b \<le> REPEAT_COUNT * b" by simp
  then show ?thesis by (intro below_span) simp_all
qed

text \<open>Every call logged by the allocation loop stays inside the num entries asked for.\<close>

lemma alloc_calls_inside:
  assumes "0 \<le> ne" "\<forall>c\<in>set calls. 0 \<le> fst c \<and> fst c + snd c = num"
  shows "\<forall>c\<in>set (alloc_calls (allocate_test_events_loop f num ne nr calls p)).
           0 \<le> fst c \<and> fst c + snd c = num"
  using assms
proof (induction f num ne nr calls p rule: allocate_test_events_loop.induct)
  case (1 f num ne nr calls p)
  show ?case
  proof (cases "ne < num")
    case False
    then show ?thesis using "1.prems" by (subst allocate_test_events_loop.simps) simp
  next
    case True
    obtain ret p' where r: "f p (num - ne) = (ret, p')" by (cases "f p (num - ne)")
    let ?calls = "calls @ [(ne, num - ne)]"
    have c: "\<forall>c\<in>set ?calls. 0 \<le> fst c \<and> fst c + snd c = num"
      using "1.prems" by auto
    show ?thesis
    proof (cases "ret < 1")
      case lt: True
      show ?thesis
      proof (cases "ret < 0 \<or> nr + 1 > MAX_RETRY")
        case True
        then show ?thesis using \<open>ne < num\<close> r lt c
          by (subst allocate_test_events_loop.simps) auto
      next
        case False
        have "allocate_test_events_loop f num ne nr calls p =
              allocate_test_events_loop f num ne (nr + 1) ?calls p'"
          using \<open>ne < num\<close> r lt False by (subst allocate_test_events_loop.simps) simp
        moreover have "\<forall>c\<in>set (alloc_calls (allocate_test_events_loop f num ne (nr + 1) ?calls p')).
                 0 \<le> fst c \<and> fst c + snd c = num"
          using "1.IH"(1)[OF \<open>ne < num\<close> r[symmetric] refl refl lt False "1.prems"(1) c] .
        ultimately show ?thesis by simp
      qed
    next
      case ge: False
      have "allocate_test_events_loop f num ne nr calls p =
            allocate_test_events_loop f num (ne + ret) 0 ?calls p'"
        using \<open>ne < num\<close> r ge by (subst allocate_test_events_loop.simps) simp
      moreover have "0 \<le> ne + ret" using "1.prems"(1) ge by simp
      ultimately show ?thesis
        using "1.IH"(2)[OF \<open>ne < num\<close> r[symmetric] refl refl ge _ c] by simp
    qed
  qed
qed

lemma below_allocate:
  "below num (allocate_test_events_access f pool t num)"
proof -
  have "\<forall>c\<in>set (alloc_calls (allocate_test_events f num pool)). 0 \<le> fst c \<and> fst c + snd c = num"
    unfolding allocate_test_events_def by (rule alloc_calls_inside) simp_all
  then show ?thesis
    by (auto simp: below_iff allocate_test_events_access_def span_def)
qed

lemma set_for_loop: "set (for_loop m body) = (\<Union>k\<in>{0..<nat m}. set (body (int k)))"
  by (simp add: for_loop_def)

lemma below_for_loop_iff:
  "below n (for_loop m body) \<longleftrightarrow> (\<forall>i. 0 \<le> i \<and> i < m \<longrightarrow> below n (body i))"
proof
  assume b: "below n (for_loop m body)"
  show "\<forall>i. 0 \<le> i \<and> i < m \<longrightarrow> below n (body i)"
  proof (intro allI impI)
    fix i assume i: "0 \<le> i \<and> i < m"
    then have k: "nat i \<in> {0..<nat m}" and e: "int (nat i) = i" by simp_all
    have "set (body (int (nat i))) \<subseteq> set (for_loop m body)"
      unfolding set_for_loop using k by blast
    then have "set (body i) \<subseteq> set (for_loop m body)" using e by simp
    then show "below n (body i)" using b by (auto simp: below_iff)
  qed
next
  assume "\<forall>i. 0 \<le> i \<and> i < m \<longrightarrow> below n (body i)"
  then show "below n (for_loop m body)" by (intro below_for_loop) simp
qed

lemma lt_repeat_mult:
  fixes i b :: int
  assumes "1 \<le> b" "i < REPEAT_COUNT"
  shows "i < REPEAT_COUNT * b"
proof -
  have "REPEAT_COUNT * 1 \<le> REPEAT_COUNT * b"
    using assms(1) by (intro mult_left_mono) (simp_all add: REPEAT_COUNT_def)
  then show ?thesis using assms(2) by simp
qed

lemmas below_simps =
  below_for_loop_iff below_append below_at below_Nil below_multi below_first_burst lt_repeat_mult

lemma run_functions_below:
  assumes "1 \<le> b"
  shows "list_all (\<lambda>f. below (REPEAT_COUNT * b) (snd f)) (run_functions b)"
  using assms unfolding run_functions_def
    event_alloc_access_def event_alloc_multi_access_def alloc_free_access_def
    alloc_free_multi_access_def event_free_access_def event_free_multi_access_def
    event_pointer_access_def event_uarea_get_access_def event_uarea_get_size_access_def
    event_get_size_access_def event_get_type_access_def event_get_type_multi_access_def
    event_same_type_multi_access_def event_set_type_access_def event_get_pool_access_def
    event_uarea_id_get_access_def event_uarea_id_set_access_def event_uarea_info_access_def
    event_has_ref_access_def event_ref_access_def event_clone_access_def event_vector_access_def
    core_access_def odp_event2odp_access_def odp_events2odp_access_def odp_event2em_access_def
    odp_events2em_access_def unsched_send_access_def unsched_send_multi_access_def
    unsched_dequeue_access_def unsched_dequeue_multi_access_def unsched_send_dequeue_access_def
    unsched_send_dequeue_multi_access_def
  by (simp add: below_simps)

lemma term_functions_below:
  assumes "1 \<le> b"
  shows "list_all (\<lambda>f. below (REPEAT_COUNT * b) (snd f)) (term_functions b)"
  using assms unfolding term_functions_def free_events_access_def free_events_multi_access_def
    free_vectors_access_def free_clone_events_access_def unsched_dequeue_free_access_def
    unsched_dequeue_free_multi_access_def free_event_tbl_access_def
    unsched_dequeue_access_def unsched_dequeue_multi_access_def
  by (simp add: below_simps)

lemma below_allocate_repeat:
  assumes "1 \<le> b"
  shows "below (REPEAT_COUNT * b) (allocate_test_events_access f pool t REPEAT_COUNT)"
proof -
  have "REPEAT_COUNT * 1 \<le> REPEAT_COUNT * b"
    using assms by (intro mult_left_mono) (simp_all add: REPEAT_COUNT_def)
  then have "REPEAT_COUNT \<le> REPEAT_COUNT * b" by simp
  with below_allocate show ?thesis by (rule below_mono)
qed

lemma below_ext_packets:
  assumes "1 \<le> b"
  shows "below (REPEAT_COUNT * b) (span t 0 REPEAT_COUNT)"
proof -
  have "REPEAT_COUNT * 1 \<le> REPEAT_COUNT * b"
    using assms by (intro mult_left_mono) (simp_all add: REPEAT_COUNT_def)
  then have "0 + REPEAT_COUNT \<le> REPEAT_COUNT * b" by simp
  then show ?thesis by (intro below_span) simp_all
qed

lemma init_functions_below:
  assumes "1 \<le> b"
  shows "list_all (\<lambda>f. below (REPEAT_COUNT * b) (snd f)) (init_functions f pool b)"
  using assms unfolding init_functions_def create_sw_events_access_def create_packets_access_def
    create_vectors_access_def create_sw_events_multi_access_def create_packets_multi_access_def
    create_vectors_multi_access_def create_ext_packets_access_def
    create_send_unsched_sw_events_access_def create_send_unsched_sw_events_multi_access_def
    init_test_events_access_def allocate_test_ext_pktevents_access_def
    unsched_send_access_def unsched_send_multi_access_def Let_def
  by (simp add: below_simps below_allocate below_allocate_repeat below_ext_packets)

text \<open>
  Claim C10. For a burst size that \<open>parse_args\<close> accepts, from 1 to \<open>MAX_BURST = 64\<close>,
  every index that a \<open>run\<close>, \<open>init\<close> or \<open>term\<close> function of \<open>test_suite\<close> uses into
  a table of \<open>gbl_args_t\<close> has the form \<open>i * burst_size + k\<close> with
  \<open>0 \<le> i < REPEAT_COUNT\<close> and \<open>0 \<le> k < burst_size\<close>, and lies from 0 up to, and not
  including, \<open>MAX_EVENTS = REPEAT_COUNT * MAX_BURST\<close>, the length of each table: no
  access is out of bounds. This holds whatever \<open>em_alloc_multi\<close> returns.
\<close>

theorem table_indices_in_bounds:
  assumes "1 \<le> burst_size" and "burst_size \<le> MAX_BURST"
  shows "\<forall>f \<in> set (run_functions burst_size @ init_functions em_alloc_multi pool burst_size @
                    term_functions burst_size).
           \<forall>a \<in> set (snd f).
             (\<exists>i k. snd a = i * burst_size + k \<and> 0 \<le> i \<and> i < REPEAT_COUNT \<and>
                     0 \<le> k \<and> k < burst_size) \<and>
             0 \<le> snd a \<and> snd a < MAX_EVENTS"
proof (intro ballI)
  fix f a
  assume f: "f \<in> set (run_functions burst_size @ init_functions em_alloc_multi pool burst_size @
                    term_functions burst_size)"
    and a: "a \<in> set (snd f)"
  have "below (REPEAT_COUNT * burst_size) (snd f)"
    using f run_functions_below[OF assms(1)] init_functions_below[OF assms(1), of em_alloc_multi pool]
      term_functions_below[OF assms(1)]
    by (auto simp: list_all_iff)
  then have r: "0 \<le> snd a" "snd a < REPEAT_COUNT * burst_size"
    using a by (auto simp: below_iff)
  have "REPEAT_COUNT * burst_size \<le> REPEAT_COUNT * MAX_BURST"
    using assms(2) by (intro mult_left_mono) (simp_all add: REPEAT_COUNT_def)
  then have "snd a < MAX_EVENTS" using r(2) by (simp add: MAX_EVENTS_def)
  moreover have "\<exists>i k. snd a = i * burst_size + k \<and> 0 \<le> i \<and> i < REPEAT_COUNT \<and>
                     0 \<le> k \<and> k < burst_size"
    using split_index[of "snd a" burst_size] r assms(1) by (simp add: REPEAT_COUNT_def)
  ultimately show "(\<exists>i k. snd a = i * burst_size + k \<and> 0 \<le> i \<and> i < REPEAT_COUNT \<and>
                     0 \<le> k \<and> k < burst_size) \<and>
             0 \<le> snd a \<and> snd a < MAX_EVENTS"
    using r(1) by blast
qed

theorem table_indices_in_bounds_witness:
  "list_all (\<lambda>f. below MAX_EVENTS (snd f))
     (run_functions 64 @ init_functions (alloc_always 1) () 64 @ term_functions 64)"
proof -
  have h: "(1::int) \<le> 64" "(64::int) \<le> MAX_BURST" by (simp_all add: MAX_BURST_def)
  from table_indices_in_bounds[OF h, of "alloc_always 1" "()"]
  show ?thesis unfolding list_all_iff below_iff by blast
qed

end
